theory Spec2Isabelle
  imports Main "HOL-Library.Word" "HOL-Library.Multiset"
begin

section \<open>Machine integers and priorities\<close>

text \<open>
  \<^verbatim>\<open>uint32_t\<close> is a 32-bit word (arithmetic wraps); the payload of
  \<^verbatim>\<open>std::atomic<int>\<close> is a 32-bit two's-complement word, read with \<open>sint\<close>.
\<close>

type_synonym u32 = "32 word"
type_synonym atomic_int = "32 word"

text \<open>\<^verbatim>\<open>enum class TaskPriority { Background = 0, Low = 1, Normal = 2, High = 3 }\<close>\<close>

datatype TaskPriority = Background | Low | Normal | High

fun priority_value :: "TaskPriority \<Rightarrow> nat" where
  "priority_value Background = 0"
| "priority_value Low = 1"
| "priority_value Normal = 2"
| "priority_value High = 3"

section \<open>TaskHandle\<close>

text \<open>
  A handle holds a \<^verbatim>\<open>std::shared_ptr<std::atomic<int>>\<close>. The shared counters live in
  an explicit store (a list indexed by address); \<open>m_Counter\<close> is the address of the
  handle's counter, or \<open>None\<close> for a null pointer (a moved-from handle). Copies of a
  handle carry the same address and so share the counter.
\<close>

type_synonym counter_store = "atomic_int list"

record TaskHandle =
  m_Counter :: "nat option"

text \<open>\<^verbatim>\<open>TaskHandle() : m_Counter(std::make_shared<std::atomic<int>>(0))\<close>\<close>

definition TaskHandle_new :: "counter_store \<Rightarrow> TaskHandle \<times> counter_store" where
  "TaskHandle_new cs = (\<lparr>m_Counter = Some (length cs)\<rparr>, cs @ [0])"

text \<open>
  \<^verbatim>\<open>Wait\<close> polls the counter and yields while it is positive. Other threads change the
  counter between polls, so the function takes the store seen at each successive poll
  (\<open>obs k\<close> is the store at poll number \<open>k\<close>) and returns the number of the poll at which
  the loop exits; \<open>None\<close> is a loop that never exits.
\<close>

partial_function (option) Wait :: "TaskHandle \<Rightarrow> (nat \<Rightarrow> counter_store) \<Rightarrow> nat \<Rightarrow> nat option" where
  "Wait h obs k =
     (case m_Counter h of
        None \<Rightarrow> Some k
      | Some a \<Rightarrow> if 0 < sint (obs k ! a) then Wait h obs (Suc k) else Some k)"

definition IsComplete :: "TaskHandle \<Rightarrow> counter_store \<Rightarrow> bool" where
  "IsComplete h cs = (case m_Counter h of None \<Rightarrow> True | Some a \<Rightarrow> cs ! a = 0)"

definition Increment :: "TaskHandle \<Rightarrow> counter_store \<Rightarrow> counter_store" where
  "Increment h cs = (case m_Counter h of None \<Rightarrow> cs | Some a \<Rightarrow> cs[a := cs ! a + 1])"

definition Decrement :: "TaskHandle \<Rightarrow> counter_store \<Rightarrow> counter_store" where
  "Decrement h cs = (case m_Counter h of None \<Rightarrow> cs | Some a \<Rightarrow> cs[a := cs ! a - 1])"

section \<open>Tasks and the per-worker queues\<close>

text \<open>
  The callable is a value of an arbitrary type \<open>'f\<close>; \<open>Function = None\<close> is an empty
  \<^verbatim>\<open>std::function\<close>.
\<close>

record 'f Task =
  Function :: "'f option"
  Priority :: TaskPriority
  Handle :: TaskHandle

text \<open>
  \<^verbatim>\<open>PushTask\<close>: the iterator walks from the front while the queued task's priority is
  \<open>\<ge>\<close> the new task's, and the task is inserted before the iterator.
\<close>

fun insert_task :: "'f Task list \<Rightarrow> 'f Task \<Rightarrow> 'f Task list" where
  "insert_task [] task = [task]"
| "insert_task (it # rest) task =
     (if priority_value (Priority it) \<ge> priority_value (Priority task)
      then it # insert_task rest task
      else task # it # rest)"

definition PushTask :: "'f Task \<Rightarrow> nat \<Rightarrow> 'f Task list list \<Rightarrow> 'f Task list list" where
  "PushTask task threadIndex queues =
     queues[threadIndex := insert_task (queues ! threadIndex) task]"

text \<open>
  \<^verbatim>\<open>TryPopTask\<close>: \<open>owns_lock\<close> is the outcome of the \<^verbatim>\<open>try_to_lock\<close> on the queue's
  mutex. On success the front task is moved out and removed.
\<close>

definition TryPopTask :: "bool \<Rightarrow> nat \<Rightarrow> 'f Task list list \<Rightarrow> 'f Task option \<times> 'f Task list list" where
  "TryPopTask owns_lock threadIndex queues =
     (if owns_lock \<and> queues ! threadIndex \<noteq> []
      then (Some (hd (queues ! threadIndex)), queues[threadIndex := tl (queues ! threadIndex)])
      else (None, queues))"

text \<open>
  \<^verbatim>\<open>TryStealTask\<close>: one attempt per queue of the scheduler. Each attempt draws a queue
  index from the random generator and tries the queue's lock; \<open>draws\<close> lists, attempt
  by attempt, the index drawn and whether the lock was obtained (a list shorter than the
  number of queues stands for further attempts that all miss the lock). The first
  attempt that owns the lock of a non-empty queue moves out that queue's back element.
\<close>

fun steal_attempts :: "(nat \<times> bool) list \<Rightarrow> 'f Task list list \<Rightarrow> 'f Task option \<times> 'f Task list list" where
  "steal_attempts [] queues = (None, queues)"
| "steal_attempts ((queueIndex, owns_lock) # draws) queues =
     (if owns_lock \<and> queues ! queueIndex \<noteq> []
      then (Some (last (queues ! queueIndex)),
            queues[queueIndex := butlast (queues ! queueIndex)])
      else steal_attempts draws queues)"

definition TryStealTask :: "(nat \<times> bool) list \<Rightarrow> 'f Task list list \<Rightarrow> 'f Task option \<times> 'f Task list list" where
  "TryStealTask draws queues = steal_attempts (take (length queues) draws) queues"

section \<open>The scheduler\<close>

text \<open>
  A worker thread is at one of the program points of \<^verbatim>\<open>WorkerThreadFunction\<close>: about to
  evaluate the loop condition, about to fetch a task (it has read \<open>m_Running\<close> as true),
  holding a dequeued task whose callable it is about to invoke, about to decrement the
  counters of the task it has run, or returned from the function.
\<close>

datatype 'f worker_pc =
    AtLoop
  | Fetching
  | Holding "'f Task"
  | Accounting "'f Task"
  | Exited

text \<open>
  \<open>m_Workers\<close> holds one entry per \<^verbatim>\<open>std::thread\<close>: the program point of that thread.
  The queue mutexes are not part of the state: a mutex is held only inside one queue
  operation, and the outcome of every \<^verbatim>\<open>try_to_lock\<close> is an input of the step.
\<close>

record 'f TaskSystem =
  m_Workers :: "'f worker_pc list"
  m_Queues :: "'f Task list list"
  m_Running :: bool
  m_ActiveTasks :: u32

text \<open>
  The process state: the singleton \<open>s_Instance\<close> (\<open>None\<close> is \<^verbatim>\<open>nullptr\<close>), the store of
  the handles' counters, and two logs: the tasks whose callable has been invoked, in
  invocation order, and the tasks a worker has finished (callable returned, counters
  decremented).
\<close>

record 'f world =
  s_Instance :: "'f TaskSystem option"
  counters :: counter_store
  invoked :: "'f Task list"
  finished :: "'f Task list"

definition init_world :: "'f world" where
  "init_world = \<lparr>s_Instance = None, counters = [], invoked = [], finished = []\<rparr>"

text \<open>
  \<^verbatim>\<open>InitializeInternal\<close>; \<open>hardware_concurrency\<close> is the value returned by
  \<^verbatim>\<open>std::thread::hardware_concurrency()\<close>.
\<close>

definition InitializeInternal :: "u32 \<Rightarrow> u32 \<Rightarrow> 'f TaskSystem" where
  "InitializeInternal numThreads hardware_concurrency =
     (let numThreads1 =
            (if numThreads = 0
             then (if hardware_concurrency > 1 then hardware_concurrency - 1
                   else hardware_concurrency)
             else numThreads);
          numThreads2 = max 1 numThreads1
      in \<lparr>m_Workers = replicate (unat numThreads2) AtLoop,
          m_Queues = replicate (unat numThreads2) [],
          m_Running = True,
          m_ActiveTasks = 0\<rparr>)"

definition Initialize :: "u32 \<Rightarrow> u32 \<Rightarrow> 'f world \<Rightarrow> 'f world" where
  "Initialize numThreads hardware_concurrency w =
     (case s_Instance w of
        None \<Rightarrow> w\<lparr>s_Instance := Some (InitializeInternal numThreads hardware_concurrency)\<rparr>
      | Some ts \<Rightarrow> w)"

definition GetWorkerCount :: "'f world \<Rightarrow> u32" where
  "GetWorkerCount w =
     (case s_Instance w of None \<Rightarrow> 0 | Some ts \<Rightarrow> of_nat (length (m_Workers ts)))"

text \<open>
  \<^verbatim>\<open>ScheduleInternal\<close>; \<open>targetQueue\<close> is the value drawn from
  \<^verbatim>\<open>uniform_int_distribution(0, m_Queues.size() - 1)\<close>. Constructing the task
  default-constructs its handle, which allocates a fresh counter holding 0.
\<close>

definition ScheduleInternal ::
  "'f option \<Rightarrow> TaskPriority \<Rightarrow> nat \<Rightarrow> 'f TaskSystem \<Rightarrow> counter_store
     \<Rightarrow> TaskHandle \<times> 'f TaskSystem \<times> counter_store" where
  "ScheduleInternal function priority targetQueue ts cs =
     (let (h0, cs1) = TaskHandle_new cs;
          task = \<lparr>Function = function, Priority = priority, Handle = h0\<rparr>;
          active = m_ActiveTasks ts + 1;
          cs2 = Increment (Handle task) cs1;
          handle = Handle task
      in (handle,
          ts\<lparr>m_ActiveTasks := active,
             m_Queues := PushTask task targetQueue (m_Queues ts)\<rparr>,
          cs2))"

definition Schedule ::
  "'f option \<Rightarrow> TaskPriority \<Rightarrow> nat \<Rightarrow> 'f world \<Rightarrow> TaskHandle \<times> 'f world" where
  "Schedule function priority targetQueue w =
     (case s_Instance w of
        Some ts \<Rightarrow>
          (let (handle, ts', cs') = ScheduleInternal function priority targetQueue ts (counters w)
           in (handle, w\<lparr>s_Instance := Some ts', counters := cs'\<rparr>))
      | None \<Rightarrow>
          (let (handle, cs') = TaskHandle_new (counters w)
           in (handle, w\<lparr>counters := cs'\<rparr>)))"

text \<open>
  \<^verbatim>\<open>ScheduleBatch\<close> calls \<^verbatim>\<open>Schedule\<close> for each callable in order; \<open>targets\<close> lists the
  queue drawn by each call.
\<close>

fun ScheduleBatch ::
  "'f option list \<Rightarrow> TaskPriority \<Rightarrow> nat list \<Rightarrow> 'f world \<Rightarrow> TaskHandle list \<times> 'f world" where
  "ScheduleBatch [] priority targets w = ([], w)"
| "ScheduleBatch (func # functions) priority targets w =
     (let (handle, w1) = Schedule func priority (hd targets) w;
          (handles, w2) = ScheduleBatch functions priority (tl targets) w1
      in (handle # handles, w2))"

text \<open>
  One atomic step of worker \<open>threadIndex\<close>, by program point. Fetching runs
  \<^verbatim>\<open>TryPopTask\<close> on the worker's own queue and, if that fails, \<^verbatim>\<open>TryStealTask\<close>; when both
  fail the worker waits on the condition variable and returns to the loop condition.
\<close>

definition set_pc :: "nat \<Rightarrow> 'f worker_pc \<Rightarrow> 'f TaskSystem \<Rightarrow> 'f TaskSystem" where
  "set_pc threadIndex pc ts = ts\<lparr>m_Workers := (m_Workers ts)[threadIndex := pc]\<rparr>"

definition WorkerThreadFunction ::
  "nat \<Rightarrow> bool \<Rightarrow> (nat \<times> bool) list \<Rightarrow> 'f TaskSystem \<Rightarrow> 'f world \<Rightarrow> 'f world" where
  "WorkerThreadFunction threadIndex owns_lock draws ts w =
     (case m_Workers ts ! threadIndex of
        AtLoop \<Rightarrow>
          w\<lparr>s_Instance :=
              Some (set_pc threadIndex (if m_Running ts then Fetching else Exited) ts)\<rparr>
      | Fetching \<Rightarrow>
          (case TryPopTask owns_lock threadIndex (m_Queues ts) of
             (Some task, queues') \<Rightarrow>
               w\<lparr>s_Instance :=
                   Some (set_pc threadIndex (Holding task) (ts\<lparr>m_Queues := queues'\<rparr>))\<rparr>
           | (None, _) \<Rightarrow>
               (case TryStealTask draws (m_Queues ts) of
                  (Some task, queues') \<Rightarrow>
                    w\<lparr>s_Instance :=
                        Some (set_pc threadIndex (Holding task) (ts\<lparr>m_Queues := queues'\<rparr>))\<rparr>
                | (None, _) \<Rightarrow>
                    w\<lparr>s_Instance := Some (set_pc threadIndex AtLoop ts)\<rparr>))
      | Holding task \<Rightarrow>
          w\<lparr>invoked := (case Function task of
                           None \<Rightarrow> invoked w
                         | Some f \<Rightarrow> invoked w @ [task]),
             s_Instance := Some (set_pc threadIndex (Accounting task) ts)\<rparr>
      | Accounting task \<Rightarrow>
          w\<lparr>counters := Decrement (Handle task) (counters w),
             finished := finished w @ [task],
             s_Instance :=
               Some (set_pc threadIndex AtLoop (ts\<lparr>m_ActiveTasks := m_ActiveTasks ts - 1\<rparr>))\<rparr>
      | Exited \<Rightarrow> w)"

text \<open>
  \<^verbatim>\<open>ShutdownInternal\<close> in its three phases: the store to \<open>m_Running\<close> (with the
  \<^verbatim>\<open>notify_all\<close>), the joins, which return once every worker has left its function, and
  the clearing of workers and queues. \<^verbatim>\<open>Shutdown\<close> then deletes the instance.
\<close>

definition ShutdownInternal_signal :: "'f TaskSystem \<Rightarrow> 'f TaskSystem" where
  "ShutdownInternal_signal ts = ts\<lparr>m_Running := False\<rparr>"

definition workers_joined :: "'f TaskSystem \<Rightarrow> bool" where
  "workers_joined ts = list_all (\<lambda>pc. pc = Exited) (m_Workers ts)"

definition ShutdownInternal_release :: "'f TaskSystem \<Rightarrow> 'f TaskSystem" where
  "ShutdownInternal_release ts = ts\<lparr>m_Workers := [], m_Queues := []\<rparr>"

text \<open>\<^verbatim>\<open>delete s_Instance; s_Instance = nullptr;\<close> at the end of \<^verbatim>\<open>Shutdown\<close>.\<close>

definition Shutdown_delete :: "'f world \<Rightarrow> 'f world" where
  "Shutdown_delete w = w\<lparr>s_Instance := None\<rparr>"

section \<open>Interleavings\<close>

text \<open>
  The atomic actions of the threads. Every random draw and every lock outcome is carried
  by the event. An event is enabled only where the source is defined: a queue index is
  within the queues, a worker index names a spawned thread, and the queues are released
  only after the flag is cleared and the joins have returned.
\<close>

datatype 'f event =
    EvInitialize u32 u32
  | EvSchedule "'f option" TaskPriority nat
  | EvWorker nat bool "(nat \<times> bool) list"
  | EvShutdownSignal
  | EvShutdownRelease

fun step :: "'f event \<Rightarrow> 'f world \<Rightarrow> 'f world option" where
  "step (EvInitialize numThreads hardware_concurrency) w =
     Some (Initialize numThreads hardware_concurrency w)"
| "step (EvSchedule function priority targetQueue) w =
     (case s_Instance w of
        None \<Rightarrow> Some (snd (Schedule function priority targetQueue w))
      | Some ts \<Rightarrow>
          if targetQueue < length (m_Queues ts)
          then Some (snd (Schedule function priority targetQueue w))
          else None)"
| "step (EvWorker threadIndex owns_lock draws) w =
     (case s_Instance w of
        None \<Rightarrow> None
      | Some ts \<Rightarrow>
          if threadIndex < length (m_Workers ts)
             \<and> list_all (\<lambda>d. fst d < length (m_Queues ts)) draws
          then Some (WorkerThreadFunction threadIndex owns_lock draws ts w)
          else None)"
| "step EvShutdownSignal w =
     (case s_Instance w of
        None \<Rightarrow> Some w
      | Some ts \<Rightarrow> Some (w\<lparr>s_Instance := Some (ShutdownInternal_signal ts)\<rparr>))"
| "step EvShutdownRelease w =
     (case s_Instance w of
        None \<Rightarrow> None
      | Some ts \<Rightarrow>
          if \<not> m_Running ts \<and> workers_joined ts
          then Some (Shutdown_delete (w\<lparr>s_Instance := Some (ShutdownInternal_release ts)\<rparr>))
          else None)"

fun run :: "'f event list \<Rightarrow> 'f world \<Rightarrow> 'f world option" where
  "run [] w = Some w"
| "run (e # es) w = (case step e w of None \<Rightarrow> None | Some w' \<Rightarrow> run es w')"

section \<open>ParallelFor\<close>

text \<open>
  The loop \<^verbatim>\<open>for (uint32_t i = start; i < end; ++i) function(i)\<close>, as the list of the
  arguments \<^verbatim>\<open>function\<close> is called with, in call order.
\<close>

function index_loop :: "u32 \<Rightarrow> u32 \<Rightarrow> u32 list" where
  "index_loop i end = (if i < end then i # index_loop (i + 1) end else [])"
  by pat_completeness auto
termination
proof (relation "measure (\<lambda>(i, e). unat e - unat i)")
  show "wf (measure (\<lambda>(i :: u32, e :: u32). unat e - unat i))" by simp
next
  fix i e :: u32
  assume "i < e"
  then have lt: "unat i < unat e" by (simp add: word_less_nat_alt)
  have "unat e < 2 ^ LENGTH(32)" by (rule unsigned_less)
  with lt have "unat i + 1 < 2 ^ LENGTH(32)" by linarith
  then have "unat (i + 1) = Suc (unat i)" by (simp add: unat_word_ariths)
  with lt show "((i + 1, e), (i, e)) \<in> measure (\<lambda>(i, e). unat e - unat i)" by simp
qed

text \<open>
  The batch loop of \<^verbatim>\<open>Execute\<close>, as the list of the \<open>(start, end)\<close> pairs captured by the
  lambdas passed to \<^verbatim>\<open>TaskSystem::Schedule\<close>, in submission order.
\<close>

function batch_loop :: "u32 \<Rightarrow> u32 \<Rightarrow> u32 \<Rightarrow> u32 \<Rightarrow> (u32 \<times> u32) list" where
  "batch_loop batch numBatches batchSize count' =
     (if batch < numBatches
      then (let start = batch * batchSize;
                end = min (start + batchSize) count'
            in (start, end) # batch_loop (batch + 1) numBatches batchSize count')
      else [])"
  by pat_completeness auto
termination
proof (relation "measure (\<lambda>(b, n, s, c). unat n - unat b)")
  show "wf (measure (\<lambda>(b :: u32, n :: u32, s :: u32, c :: u32). unat n - unat b))" by simp
next
  fix b n s c :: u32
  assume "b < n"
  then have lt: "unat b < unat n" by (simp add: word_less_nat_alt)
  have "unat n < 2 ^ LENGTH(32)" by (rule unsigned_less)
  with lt have "unat b + 1 < 2 ^ LENGTH(32)" by linarith
  then have "unat (b + 1) = Suc (unat b)" by (simp add: unat_word_ariths)
  with lt show "((b + 1, n, s, c), (b, n, s, c)) \<in> measure (\<lambda>(b, n, s, c). unat n - unat b)"
    by simp
qed

declare index_loop.simps [simp del] batch_loop.simps [simp del]

text \<open>The body of a submitted batch lambda: the calls it makes to \<^verbatim>\<open>function\<close>.\<close>

definition batch_calls :: "u32 \<times> u32 \<Rightarrow> u32 list" where
  "batch_calls b = index_loop (fst b) (snd b)"

text \<open>
  What \<^verbatim>\<open>Execute\<close> does: the calls made on the calling thread, the batch size it settled
  on, and the batch lambdas it submitted.
\<close>

record Execute_effect =
  direct_calls :: "u32 list"
  effective_batchSize :: u32
  submitted :: "(u32 \<times> u32) list"

text \<open>
  \<^verbatim>\<open>ParallelFor::Execute\<close>; \<open>count'\<close> is the parameter \<^verbatim>\<open>count\<close> and \<open>workerCount\<close> is the
  value \<^verbatim>\<open>GetWorkerCount()\<close> returned.
  The automatic batch size divides by \<open>workerCount * 4\<close>, computed in 32 bits; a division
  by zero is undefined behaviour in the source and \<open>None\<close> here.
\<close>

definition Execute :: "u32 \<Rightarrow> u32 \<Rightarrow> u32 \<Rightarrow> Execute_effect option" where
  "Execute count' workerCount batchSize =
     (if count' = 0
      then Some \<lparr>direct_calls = [], effective_batchSize = batchSize, submitted = []\<rparr>
      else if workerCount = 0
      then Some \<lparr>direct_calls = index_loop 0 count', effective_batchSize = batchSize,
                 submitted = []\<rparr>
      else if batchSize = 0 \<and> workerCount * 4 = 0
      then None
      else
        (let batchSize1 =
               (if batchSize = 0 then max 1 (count' div (workerCount * 4)) else batchSize);
             numBatches = (count' + batchSize1 - 1) div batchSize1
         in Some \<lparr>direct_calls = [], effective_batchSize = batchSize1,
                   submitted = batch_loop 0 numBatches batchSize1 count'\<rparr>))"

text \<open>Every call \<^verbatim>\<open>Execute\<close> causes: its own, then those of the submitted batches.\<close>

definition all_calls :: "Execute_effect \<Rightarrow> u32 list" where
  "all_calls e = direct_calls e @ concat (map batch_calls (submitted e))"

section \<open>Queue operations in sequence\<close>

text \<open>
  The three operations that touch the queues, with their inputs, and the queues after a
  sequence of them. An operation is defined when its queue indices are within the
  queues. \<open>pushed\<close> lists the tasks a sequence pushes, in push order.
\<close>

datatype 'f queue_op =
    OpPushTask "'f Task" nat
  | OpTryPopTask bool nat
  | OpTryStealTask "(nat \<times> bool) list"

fun apply_op :: "'f queue_op \<Rightarrow> 'f Task list list \<Rightarrow> 'f Task list list" where
  "apply_op (OpPushTask task threadIndex) queues = PushTask task threadIndex queues"
| "apply_op (OpTryPopTask owns_lock threadIndex) queues =
     snd (TryPopTask owns_lock threadIndex queues)"
| "apply_op (OpTryStealTask draws) queues = snd (TryStealTask draws queues)"

fun op_defined :: "nat \<Rightarrow> 'f queue_op \<Rightarrow> bool" where
  "op_defined n (OpPushTask task threadIndex) = (threadIndex < n)"
| "op_defined n (OpTryPopTask owns_lock threadIndex) = (threadIndex < n)"
| "op_defined n (OpTryStealTask draws) = list_all (\<lambda>d. fst d < n) draws"

fun run_ops :: "'f queue_op list \<Rightarrow> 'f Task list list \<Rightarrow> 'f Task list list" where
  "run_ops [] queues = queues"
| "run_ops (op # ops) queues = run_ops ops (apply_op op queues)"

fun pushed :: "'f queue_op list \<Rightarrow> 'f Task list" where
  "pushed [] = []"
| "pushed (OpPushTask task threadIndex # ops) = task # pushed ops"
| "pushed (op # ops) = pushed ops"

text \<open>
  The order of a queue: \<open>stamp\<close> numbers the tasks by insertion. A task stands before
  another when its priority is higher, or equal with the smaller stamp.
\<close>

definition queue_order :: "('f Task \<Rightarrow> nat) \<Rightarrow> 'f Task \<Rightarrow> 'f Task \<Rightarrow> bool" where
  "queue_order stamp a b \<longleftrightarrow>
     priority_value (Priority a) > priority_value (Priority b)
     \<or> (priority_value (Priority a) = priority_value (Priority b) \<and> stamp a < stamp b)"

definition queue_sorted :: "('f Task \<Rightarrow> nat) \<Rightarrow> 'f Task list \<Rightarrow> bool" where
  "queue_sorted stamp q = sorted_wrt (queue_order stamp) q"

text \<open>
  The invariant carried through a sequence: every queue is in queue order, and every
  queued task has a smaller stamp than each task in \<open>later\<close>.
\<close>

definition queues_ok :: "('f Task \<Rightarrow> nat) \<Rightarrow> 'f Task list \<Rightarrow> 'f Task list list \<Rightarrow> bool" where
  "queues_ok stamp later queues \<longleftrightarrow>
     (\<forall>q\<in>set queues. queue_sorted stamp q \<and> (\<forall>x\<in>set q. \<forall>t\<in>set later. stamp x < stamp t))"

section \<open>Where the tasks are\<close>

text \<open>
  The tasks a worker has dequeued and not yet finished, the queued tasks of the whole
  scheduler, and the value of the running flag (false without a scheduler).
\<close>

fun held_task :: "'f worker_pc \<Rightarrow> 'f Task list" where
  "held_task (Holding task) = [task]"
| "held_task (Accounting task) = [task]"
| "held_task pc = []"

definition ts_queued :: "'f TaskSystem \<Rightarrow> 'f Task list" where
  "ts_queued ts = concat (m_Queues ts)"

definition ts_held :: "'f TaskSystem \<Rightarrow> 'f Task list" where
  "ts_held ts = concat (map held_task (m_Workers ts))"

definition queued_tasks :: "'f world \<Rightarrow> 'f Task list" where
  "queued_tasks w = (case s_Instance w of None \<Rightarrow> [] | Some ts \<Rightarrow> ts_queued ts)"

definition held_tasks :: "'f world \<Rightarrow> 'f Task list" where
  "held_tasks w = (case s_Instance w of None \<Rightarrow> [] | Some ts \<Rightarrow> ts_held ts)"


definition pending :: "'f world \<Rightarrow> 'f Task multiset" where
  "pending w = mset (queued_tasks w) + mset (held_tasks w)"

text \<open>
  The effect of one step on the tasks, the counters and the logs is one of five: tasks
  move between queues and workers or a held task's callable is invoked; a worker
  finishes a held task; a new task with a fresh counter at 1 is queued; a fresh counter
  at 0 is allocated; or, with no task held, all queued tasks disappear.
\<close>

definition moves :: "'f world \<Rightarrow> 'f world \<Rightarrow> bool" where
  "moves w w' \<longleftrightarrow>
     counters w' = counters w \<and> finished w' = finished w
     \<and> mset (queued_tasks w') + mset (held_tasks w') = mset (queued_tasks w) + mset (held_tasks w)
     \<and> mset (held_tasks w) \<subseteq># mset (held_tasks w')
     \<and> (invoked w' = invoked w \<or> (\<exists>t\<in>set (held_tasks w). invoked w' = invoked w @ [t]))"

definition accounts :: "'f Task \<Rightarrow> 'f world \<Rightarrow> 'f world \<Rightarrow> bool" where
  "accounts t w w' \<longleftrightarrow>
     t \<in> set (held_tasks w)
     \<and> mset (held_tasks w') + {#t#} = mset (held_tasks w)
     \<and> queued_tasks w' = queued_tasks w
     \<and> counters w' = Decrement (Handle t) (counters w)
     \<and> finished w' = finished w @ [t] \<and> invoked w' = invoked w"

definition submits :: "'f Task \<Rightarrow> 'f world \<Rightarrow> 'f world \<Rightarrow> bool" where
  "submits t w w' \<longleftrightarrow>
     counters w' = counters w @ [1]
     \<and> m_Counter (Handle t) = Some (length (counters w))
     \<and> mset (queued_tasks w') = mset (queued_tasks w) + {#t#}
     \<and> held_tasks w' = held_tasks w
     \<and> finished w' = finished w \<and> invoked w' = invoked w"

definition allocs :: "'f world \<Rightarrow> 'f world \<Rightarrow> bool" where
  "allocs w w' \<longleftrightarrow>
     counters w' = counters w @ [0]
     \<and> queued_tasks w' = queued_tasks w \<and> held_tasks w' = held_tasks w
     \<and> finished w' = finished w \<and> invoked w' = invoked w"

definition drops :: "'f world \<Rightarrow> 'f world \<Rightarrow> bool" where
  "drops w w' \<longleftrightarrow>
     counters w' = counters w \<and> finished w' = finished w \<and> invoked w' = invoked w
     \<and> held_tasks w = [] \<and> held_tasks w' = [] \<and> queued_tasks w' = []"

definition same_shape :: "'f world \<Rightarrow> 'f world \<Rightarrow> bool" where
  "same_shape w w' \<longleftrightarrow>
     (\<exists>ts ts'. s_Instance w = Some ts \<and> s_Instance w' = Some ts'
        \<and> length (m_Queues ts') = length (m_Queues ts)
        \<and> length (m_Workers ts') = length (m_Workers ts))"

definition len_ok :: "'f world \<Rightarrow> bool" where
  "len_ok w \<longleftrightarrow>
     (case s_Instance w of None \<Rightarrow> True
      | Some ts \<Rightarrow> length (m_Queues ts) = length (m_Workers ts))"

text \<open>
  The invariant of the handles: no two tasks that are queued, held or finished share a
  handle; the counter of a queued or held task is 1 and that of a finished task is 0;
  every counter is 0 or 1; and an invoked task is held or finished.
\<close>

definition handle_inv :: "'f world \<Rightarrow> bool" where
  "handle_inv w \<longleftrightarrow>
     (\<forall>h. count (image_mset Handle (pending w + mset (finished w))) h \<le> 1)
   \<and> (\<forall>t. t \<in># pending w \<longrightarrow>
          (\<exists>a. m_Counter (Handle t) = Some a \<and> a < length (counters w) \<and> counters w ! a = 1))
   \<and> (\<forall>t\<in>set (finished w).
          \<exists>a. m_Counter (Handle t) = Some a \<and> a < length (counters w) \<and> counters w ! a = 0)
   \<and> (\<forall>a<length (counters w). counters w ! a = 0 \<or> counters w ! a = 1)
   \<and> set (invoked w) \<subseteq> set (held_tasks w) \<union> set (finished w)"

text \<open>
  A handle that no task carries, with its counter at \<open>c\<close>; and a task that is the only
  one to carry its handle, whose counter is 0 only once the task is finished.
\<close>

definition untouched :: "TaskHandle \<Rightarrow> atomic_int \<Rightarrow> 'f world \<Rightarrow> bool" where
  "untouched h c w \<longleftrightarrow>
     (\<exists>a. m_Counter h = Some a \<and> a < length (counters w) \<and> counters w ! a = c)
   \<and> (\<forall>t. t \<in># pending w \<or> t \<in> set (finished w) \<or> t \<in> set (invoked w) \<longrightarrow> Handle t \<noteq> h)"

definition tracked :: "'f Task \<Rightarrow> 'f world \<Rightarrow> bool" where
  "tracked t w \<longleftrightarrow>
     (\<exists>a. m_Counter (Handle t) = Some a \<and> a < length (counters w)
          \<and> (counters w ! a = 0 \<longrightarrow> t \<in> set (finished w)))
   \<and> (\<forall>x. x \<in># pending w \<longrightarrow> Handle x = Handle t \<longrightarrow> x = t)"

section \<open>Finished tasks and their callables\<close>

text \<open>
  The task of a worker that has returned from the callable and is about to decrement
  the counters; and the property that every such task and every finished task that has
  a callable is in the log of invocations.
\<close>

fun accounting_task :: "'f worker_pc \<Rightarrow> 'f Task list" where
  "accounting_task (Accounting task) = [task]"
| "accounting_task pc = []"

definition accounting_tasks :: "'f world \<Rightarrow> 'f Task list" where
  "accounting_tasks w =
     (case s_Instance w of None \<Rightarrow> []
      | Some ts \<Rightarrow> concat (map accounting_task (m_Workers ts)))"

definition ran_inv :: "'f world \<Rightarrow> bool" where
  "ran_inv w \<longleftrightarrow>
     (\<forall>t. t \<in> set (finished w) \<or> t \<in> set (accounting_tasks w)
          \<longrightarrow> Function t = None \<or> t \<in> set (invoked w))"

section \<open>One worker serving one queue\<close>









fun mk_tasks :: "nat \<Rightarrow> ('f option \<times> TaskPriority) list \<Rightarrow> 'f Task list" where
  "mk_tasks base [] = []"
| "mk_tasks base ((func, priority) # ps) =
     \<lparr>Function = func, Priority = priority, Handle = \<lparr>m_Counter = Some base\<rparr>\<rparr>
       # mk_tasks (Suc base) ps"



section \<open>Shutdown in progress\<close>





section \<open>Properties of the task handle\<close>

lemma Wait_Some_exit:
  assumes "Wait h obs n = Some k"
  shows "m_Counter h = Some a \<longrightarrow>
         n \<le> k \<and> \<not> 0 < sint (obs k ! a) \<and> (\<forall>j. n \<le> j \<and> j < k \<longrightarrow> 0 < sint (obs j ! a))"
proof (induction h obs n k rule: Wait.raw_induct)
  case (1 W h' obs' n' k')
  show ?case
  proof (intro impI)
    assume live: "m_Counter h' = Some a"
    show "n' \<le> k' \<and> \<not> 0 < sint (obs' k' ! a) \<and> (\<forall>j. n' \<le> j \<and> j < k' \<longrightarrow> 0 < sint (obs' j ! a))"
    proof (cases "0 < sint (obs' n' ! a)")
      case True
      with 1(2) live have "W h' obs' (Suc n') = Some k'" by simp
      from 1(1)[OF this] live
      have ih: "Suc n' \<le> k'" "\<not> 0 < sint (obs' k' ! a)"
        "\<forall>j. Suc n' \<le> j \<and> j < k' \<longrightarrow> 0 < sint (obs' j ! a)" by auto
      have "0 < sint (obs' j ! a)" if "n' \<le> j" "j < k'" for j
      proof (cases "j = n'")
        case True with \<open>0 < sint (obs' n' ! a)\<close> show ?thesis by simp
      next
        case False with that have "Suc n' \<le> j" by simp
        with ih(3) that show ?thesis by simp
      qed
      with ih show ?thesis by auto
    next
      case False
      with 1(2) live show ?thesis by simp
    qed
  qed
qed (rule assms)

lemma Wait_exits_at:
  assumes "m_Counter h = Some a"
  shows "n \<le> k \<Longrightarrow> \<not> 0 < sint (obs k ! a) \<Longrightarrow> (\<forall>j. n \<le> j \<and> j < k \<longrightarrow> 0 < sint (obs j ! a))
         \<Longrightarrow> Wait h obs n = Some k"
proof (induction "k - n" arbitrary: n)
  case 0
  then have "n = k" by simp
  with 0 assms show ?case by (subst Wait.simps) simp
next
  case (Suc d)
  then have "n < k" by simp
  with Suc.prems have pos: "0 < sint (obs n ! a)" by simp
  have "Wait h obs (Suc n) = Some k"
    using Suc.hyps(2) Suc.prems \<open>n < k\<close> by (intro Suc.hyps(1)) auto
  with pos assms show ?case by (subst Wait.simps) simp
qed

lemma Wait_Some_iff:
  assumes "m_Counter h = Some a"
  shows "Wait h obs' n' = Some k' \<longleftrightarrow>
            n' \<le> k' \<and> sint (obs' k' ! a) \<le> 0
            \<and> (\<forall>j. n' \<le> j \<and> j < k' \<longrightarrow> 0 < sint (obs' j ! a))"
proof
  assume "Wait h obs' n' = Some k'"
  from Wait_Some_exit [OF this, of a] assms
  show "n' \<le> k' \<and> sint (obs' k' ! a) \<le> 0 \<and> (\<forall>j. n' \<le> j \<and> j < k' \<longrightarrow> 0 < sint (obs' j ! a))"
    by (simp add: not_less)
next
  assume "n' \<le> k' \<and> sint (obs' k' ! a) \<le> 0 \<and> (\<forall>j. n' \<le> j \<and> j < k' \<longrightarrow> 0 < sint (obs' j ! a))"
  then show "Wait h obs' n' = Some k'"
    by (intro Wait_exits_at [OF assms]) (simp_all add: not_less)
qed

text \<open>
  C10. For a handle with a live counter, \<^verbatim>\<open>Wait\<close> started at poll \<open>n\<close> exits at poll \<open>k\<close>
  exactly when \<open>k\<close> is the first poll from \<open>n\<close> on at which the counter is less than or
  equal to 0; with the counter left alone it returns exactly when the counter is less
  than or equal to 0. \<^verbatim>\<open>IsComplete\<close> is true exactly when the counter equals 0. With a
  negative counter \<^verbatim>\<open>Wait\<close> returns at its first poll and \<^verbatim>\<open>IsComplete\<close> is false.
\<close>

theorem Wait_exits_iff_counter_not_positive:
  assumes "m_Counter h = Some a"
  shows "(Wait h obs n = Some k \<longleftrightarrow>
            n \<le> k \<and> sint (obs k ! a) \<le> 0 \<and> (\<forall>j. n \<le> j \<and> j < k \<longrightarrow> 0 < sint (obs j ! a)))
       \<and> ((\<exists>k. Wait h (\<lambda>_. cs) n = Some k) \<longleftrightarrow> sint (cs ! a) \<le> 0)
       \<and> (IsComplete h cs \<longleftrightarrow> cs ! a = 0)
       \<and> (sint (cs ! a) < 0 \<longrightarrow> Wait h (\<lambda>_. cs) n = Some n \<and> \<not> IsComplete h cs)"
proof -
  note iff = Wait_Some_iff [OF assms]
  have quiet: "(\<exists>k. Wait h (\<lambda>_. cs) n = Some k) \<longleftrightarrow> sint (cs ! a) \<le> 0"
  proof
    assume "\<exists>k. Wait h (\<lambda>_. cs) n = Some k"
    then obtain k where "Wait h (\<lambda>_. cs) n = Some k" ..
    then show "sint (cs ! a) \<le> 0" by (simp add: iff)
  next
    assume "sint (cs ! a) \<le> 0"
    then have "Wait h (\<lambda>_. cs) n = Some n" by (simp add: iff)
    then show "\<exists>k. Wait h (\<lambda>_. cs) n = Some k" ..
  qed
  have compl: "IsComplete h cs \<longleftrightarrow> cs ! a = 0"
    using assms by (simp add: IsComplete_def)
  have neg: "Wait h (\<lambda>_. cs) n = Some n \<and> \<not> IsComplete h cs" if "sint (cs ! a) < 0"
  proof -
    from that have "Wait h (\<lambda>_. cs) n = Some n" by (simp add: iff)
    moreover from that have "cs ! a \<noteq> 0" by auto
    ultimately show ?thesis using compl by simp
  qed
  from iff [of obs n k] quiet compl neg show ?thesis by blast
qed

theorem Wait_exits_iff_counter_not_positive_witness:
  "Wait \<lparr>m_Counter = Some 0\<rparr> (\<lambda>_. [- 1]) 0 = Some 0
   \<and> \<not> IsComplete \<lparr>m_Counter = Some 0\<rparr> [- 1]"
proof -
  have a: "m_Counter \<lparr>m_Counter = Some 0\<rparr> = Some 0" by simp
  show ?thesis
    using Wait_exits_iff_counter_not_positive [OF a, of "\<lambda>_. [- 1]" 0 0 "[- 1]"] by simp
qed

section \<open>Initialisation\<close>

lemma auto_thread_count:
  fixes hw :: u32
  shows "unat (max 1 (if 1 < hw then hw - 1 else hw)) = max 1 (unat hw - 1)"
proof (cases "1 < hw")
  case True
  then have gt: "1 < unat hw" by (simp add: word_less_nat_alt)
  then have "hw \<noteq> 0" by auto
  then have sub: "unat (hw - 1) = unat hw - 1" by (rule unat_minus_one)
  with gt have "(1 :: u32) \<le> hw - 1" by (simp add: word_le_nat_alt)
  with True sub gt show ?thesis by (simp add: max_def)
next
  case False
  then have "unat hw \<le> 1" by (simp add: word_less_nat_alt)
  then have "unat hw = 0 \<or> unat hw = 1" by linarith
  then have "hw = 0 \<or> hw = 1" by (simp add: word_unat_eq_iff)
  then show ?thesis by auto
qed

lemma InitializeInternal_auto:
  "length (m_Workers (InitializeInternal 0 hw)) = max 1 (unat hw - 1)"
  "length (m_Queues (InitializeInternal 0 hw)) = max 1 (unat hw - 1)"
  "m_Running (InitializeInternal 0 hw)"
  by (simp_all add: InitializeInternal_def auto_thread_count Let_def)

text \<open>
  C7. On a scheduler that is not initialised \<^verbatim>\<open>GetWorkerCount\<close> returns 0, and
  \<^verbatim>\<open>Initialize(0)\<close> spawns the hardware concurrency hint minus one, clamped to at least
  1, worker threads (each at the head of its loop, with one queue per worker and the
  running flag set), for every value of the hint; \<^verbatim>\<open>GetWorkerCount\<close> then returns that
  number.
\<close>

theorem Initialize_auto_worker_count:
  assumes "s_Instance w = None"
  shows "GetWorkerCount w = 0
       \<and> (\<exists>ts. s_Instance (Initialize 0 hw w) = Some ts
               \<and> int (length (m_Workers ts)) = max 1 (uint hw - 1)
               \<and> list_all (\<lambda>pc. pc = AtLoop) (m_Workers ts)
               \<and> length (m_Queues ts) = length (m_Workers ts)
               \<and> m_Running ts)
       \<and> uint (GetWorkerCount (Initialize 0 hw w)) = max 1 (uint hw - 1)"
proof -
  let ?ts = "InitializeInternal 0 hw :: 'a TaskSystem"
  have inst: "s_Instance (Initialize 0 hw w) = Some ?ts"
    using assms by (simp add: Initialize_def)
  have u: "uint hw = int (unat hw)" by (rule uint_nat)
  have len: "int (length (m_Workers ?ts)) = max 1 (uint hw - 1)"
    unfolding u InitializeInternal_auto by linarith
  have "list_all (\<lambda>pc. pc = AtLoop) (replicate k (AtLoop :: 'a worker_pc))" for k
    by (induction k) simp_all
  then have pcs: "list_all (\<lambda>pc. pc = AtLoop) (m_Workers ?ts)"
    unfolding InitializeInternal_def Let_def by simp
  have cnt: "GetWorkerCount (Initialize 0 hw w) = max 1 (if 1 < hw then hw - 1 else hw)"
    using inst by (simp add: GetWorkerCount_def InitializeInternal_def Let_def)
  have "uint (max 1 (if 1 < hw then hw - 1 else hw)) = int (max 1 (unat hw - 1))"
    unfolding auto_thread_count [symmetric] by (rule uint_nat)
  then have "uint (GetWorkerCount (Initialize 0 hw w)) = max 1 (uint hw - 1)"
    unfolding cnt u by linarith
  moreover have "GetWorkerCount w = 0" using assms by (simp add: GetWorkerCount_def)
  ultimately show ?thesis using inst len pcs by (simp add: InitializeInternal_auto)
qed

theorem Initialize_auto_worker_count_witness:
  "GetWorkerCount (init_world :: nat world) = 0
   \<and> GetWorkerCount (Initialize 0 0 (init_world :: nat world)) = 1
   \<and> GetWorkerCount (Initialize 0 1 (init_world :: nat world)) = 1
   \<and> GetWorkerCount (Initialize 0 8 (init_world :: nat world)) = 7"
proof -
  have n: "s_Instance (init_world :: nat world) = None" by (simp add: init_world_def)
  have "uint (GetWorkerCount (Initialize 0 0 (init_world :: nat world))) = 1"
    using Initialize_auto_worker_count [OF n, of 0] by simp
  moreover have "uint (GetWorkerCount (Initialize 0 1 (init_world :: nat world))) = 1"
    using Initialize_auto_worker_count [OF n, of 1] by simp
  moreover have "uint (GetWorkerCount (Initialize 0 8 (init_world :: nat world))) = 7"
    using Initialize_auto_worker_count [OF n, of 8] by simp
  moreover have "GetWorkerCount (init_world :: nat world) = 0"
    using Initialize_auto_worker_count [OF n, of 8] by simp
  ultimately show ?thesis by (simp add: word_uint_eq_iff)
qed

section \<open>ParallelFor without wrap-around\<close>

text \<open>
  When \<open>count + batchSize - 1\<close> fits in 32 bits (and, for the automatic batch size, the
  worker count is below \<open>2 ^ 30\<close>), the batches are the consecutive ranges of
  \<open>batchSize\<close> indices, the last cut at \<open>count\<close>, their number is the rounded-up quotient,
  and the calls made are exactly \<open>0, \<dots>, count - 1\<close>, ascending within each batch. With
  no worker the calls are made directly, in ascending order.
\<close>

lemma unat_succ_below:
  fixes i e :: u32
  assumes "i < e"
  shows "unat (i + 1) = Suc (unat i)"
proof -
  from assms have lt: "unat i < unat e" by (simp add: word_less_nat_alt)
  have "unat e < 2 ^ LENGTH(32)" by (rule unsigned_less)
  with lt have "unat i + 1 < 2 ^ LENGTH(32)" by linarith
  then show ?thesis by (simp add: unat_word_ariths)
qed

lemma unat_of_nat_small: "n < 2 ^ 32 \<Longrightarrow> unat (of_nat n :: u32) = n"
  by (simp add: unat_of_nat)

lemma upt_split: "j \<le> k \<Longrightarrow> [0..<k] = [0..<j] @ [j..<k]"
  using upt_add_eq_append [of 0 j "k - j"] by simp

lemma index_loop_upt: "index_loop i e = map of_nat [unat i..<unat e]"
proof (induction i e rule: index_loop.induct)
  case (1 i e)
  show ?case
  proof (cases "i < e")
    case True
    then have lt: "unat i < unat e" by (simp add: word_less_nat_alt)
    from True have "index_loop i e = i # index_loop (i + 1) e"
      by (subst index_loop.simps) simp
    also from True have "index_loop (i + 1) e = map of_nat [unat (i + 1)..<unat e]" by (rule 1)
    also have "unat (i + 1) = Suc (unat i)" using True by (rule unat_succ_below)
    finally show ?thesis using lt by (simp add: upt_conv_Cons)
  next
    case False
    then have "unat e \<le> unat i" by (simp add: word_less_nat_alt)
    with False show ?thesis by (subst index_loop.simps) simp
  qed
qed

lemma batch_loop_upt:
  fixes bs cnt nb :: u32
  assumes "\<And>j. j < unat nb \<Longrightarrow> Suc j * unat bs < 2 ^ 32"
  shows "k \<le> unat nb \<Longrightarrow>
     batch_loop (of_nat k) nb bs cnt
       = map (\<lambda>j. (of_nat (j * unat bs), of_nat (min (Suc j * unat bs) (unat cnt)))) [k..<unat nb]"
proof (induction "unat nb - k" arbitrary: k)
  case 0
  then have "k = unat nb" by simp
  then have "(of_nat k :: u32) = nb" by simp
  then show ?case using \<open>k = unat nb\<close> by (subst batch_loop.simps) simp
next
  case (Suc d)
  then have lt: "k < unat nb" by simp
  have nb: "unat nb < 2 ^ 32" using unsigned_less [of nb] by simp
  with lt have k32: "k < 2 ^ 32" by simp
  then have uk: "unat (of_nat k :: u32) = k" by (simp add: unat_of_nat_small)
  with lt have wlt: "(of_nat k :: u32) < nb" by (simp add: word_less_nat_alt)
  from assms [OF lt] have nowrap: "Suc k * unat bs < 2 ^ 32" .
  then have kb: "k * unat bs < 2 ^ 32" by simp
  define s :: u32 where "s = of_nat (k * unat bs)"
  define e :: u32 where "e = of_nat (Suc k * unat bs)"
  have us: "unat s = k * unat bs" unfolding s_def using kb by (rule unat_of_nat_small)
  have ue: "unat e = Suc k * unat bs" unfolding e_def using nowrap by (rule unat_of_nat_small)
  have start: "(of_nat k :: u32) * bs = s" unfolding s_def by simp
  have "unat (s + bs) = (unat s + unat bs) mod 2 ^ LENGTH(32)" by (simp add: unat_word_ariths)
  also have "\<dots> = Suc k * unat bs" using us nowrap by simp
  finally have e1: "s + bs = e" using ue by (simp add: word_unat_eq_iff)
  have "min e cnt = of_nat (min (Suc k * unat bs) (unat cnt))"
  proof (cases "Suc k * unat bs \<le> unat cnt")
    case True
    then have "e \<le> cnt" using ue by (simp add: word_le_nat_alt)
    with True show ?thesis unfolding e_def by (simp add: min_def)
  next
    case False
    then have "\<not> e \<le> cnt" using ue by (simp add: word_le_nat_alt)
    with False show ?thesis by (simp add: min_def)
  qed
  with e1 have en: "min ((of_nat k :: u32) * bs + bs) cnt = of_nat (min (Suc k * unat bs) (unat cnt))"
    unfolding start by simp
  have nxt: "(of_nat k :: u32) + 1 = of_nat (Suc k)" by simp
  from Suc.hyps(2) lt have "d = unat nb - Suc k" "Suc k \<le> unat nb" by simp_all
  from Suc.hyps(1) [OF this]
  have ih: "batch_loop (of_nat (Suc k)) nb bs cnt
       = map (\<lambda>j. (of_nat (j * unat bs), of_nat (min (Suc j * unat bs) (unat cnt)))) [Suc k..<unat nb]" .
  have "batch_loop (of_nat k) nb bs cnt
        = (of_nat k * bs, min (of_nat k * bs + bs) cnt) # batch_loop (of_nat k + 1) nb bs cnt"
    using wlt by (subst batch_loop.simps) (simp add: Let_def)
  also have "\<dots> = (of_nat (k * unat bs), of_nat (min (Suc k * unat bs) (unat cnt)))
        # batch_loop (of_nat (Suc k)) nb bs cnt"
    unfolding en nxt unfolding start s_def ..
  finally show ?case using ih lt by (simp add: upt_conv_Cons)
qed

lemma concat_chunks:
  assumes "0 < b"
  shows "concat (map (\<lambda>j. [j * b..<min (Suc j * b) n]) [0..<m]) = [0..<min (m * b) n]"
proof (induction m)
  case 0
  then show ?case by simp
next
  case (Suc m)
  show ?case
  proof (cases "m * b \<le> n")
    case True
    then have "[0..<min (Suc m * b) n] = [0..<m * b] @ [m * b..<min (Suc m * b) n]"
      by (intro upt_split) (simp add: min_def)
    with True Suc show ?thesis by (simp add: min_def)
  next
    case False
    then have "min (m * b) n = n" "min (Suc m * b) n = n" by (simp_all add: min_def)
    with False Suc show ?thesis by simp
  qed
qed

lemma planned_batches:
  fixes cnt bs :: u32
  assumes "bs \<noteq> 0" and "unat cnt + unat bs - 1 < 2 ^ 32"
  shows "batch_loop 0 ((cnt + bs - 1) div bs) bs cnt
           = map (\<lambda>j. (of_nat (j * unat bs), of_nat (min (Suc j * unat bs) (unat cnt))))
               [0..<(unat cnt + unat bs - 1) div unat bs]
       \<and> concat (map batch_calls (batch_loop 0 ((cnt + bs - 1) div bs) bs cnt))
           = map of_nat [0..<unat cnt]"
proof -
  let ?n = "unat cnt" and ?b = "unat bs"
  let ?m = "(?n + ?b - 1) div ?b"
  from assms(1) have b: "0 < ?b" by (simp add: unat_gt_0)
  have n32: "?n < 2 ^ 32" using unsigned_less [of cnt] by simp
  have "unat (cnt + bs) = (?n + ?b) mod 2 ^ LENGTH(32)" by (simp add: unat_word_ariths)
  have sum: "unat (cnt + bs - 1) = ?n + ?b - 1"
  proof -
    have eq: "cnt + bs - 1 = cnt + (bs - 1)" by simp
    have "unat (bs - 1) = ?b - 1" using assms(1) by (rule unat_minus_one)
    moreover have "unat (cnt + (bs - 1)) = (?n + unat (bs - 1)) mod 2 ^ LENGTH(32)"
      by (simp only: unat_word_ariths)
    ultimately have "unat (cnt + (bs - 1)) = ?n + ?b - 1" using assms(2) b by simp
    then show ?thesis unfolding eq .
  qed
  have nb: "unat ((cnt + bs - 1) div bs) = ?m" by (simp only: unat_div sum)
  have mb_le: "?m * ?b \<le> ?n + ?b - 1" by (rule div_times_less_eq_dividend)
  have mb_ge: "?n \<le> ?m * ?b"
  proof -
    have "?n + ?b - 1 = ?m * ?b + (?n + ?b - 1) mod ?b" by simp
    moreover have "(?n + ?b - 1) mod ?b < ?b" using b by simp
    ultimately show ?thesis by linarith
  qed
  have nowrap: "Suc j * ?b < 2 ^ 32" if "j < unat ((cnt + bs - 1) div bs)" for j
  proof -
    from that have "Suc j \<le> ?m" unfolding nb by simp
    then have "Suc j * ?b \<le> ?m * ?b" by (rule mult_le_mono1)
    with mb_le assms(2) show ?thesis by linarith
  qed
  have "batch_loop (of_nat 0) ((cnt + bs - 1) div bs) bs cnt
          = map (\<lambda>j. (of_nat (j * ?b), of_nat (min (Suc j * ?b) ?n)))
              [0..<unat ((cnt + bs - 1) div bs)]"
    by (rule batch_loop_upt [OF nowrap]) simp_all
  then have plan: "batch_loop 0 ((cnt + bs - 1) div bs) bs cnt
          = map (\<lambda>j. (of_nat (j * ?b), of_nat (min (Suc j * ?b) ?n))) [0..<?m]"
    unfolding nb by simp
  have calls: "batch_calls (of_nat (j * ?b), of_nat (min (Suc j * ?b) ?n))
          = map of_nat [j * ?b..<min (Suc j * ?b) ?n]" if "j < ?m" for j
  proof -
    from that nowrap [of j] have "j * ?b < 2 ^ 32" unfolding nb by simp
    then have "unat (of_nat (j * ?b) :: u32) = j * ?b" by (rule unat_of_nat_small)
    moreover have "min (Suc j * ?b) ?n < 2 ^ 32" using n32 by simp
    then have "unat (of_nat (min (Suc j * ?b) ?n) :: u32) = min (Suc j * ?b) ?n"
      by (rule unat_of_nat_small)
    ultimately show ?thesis by (simp only: batch_calls_def fst_conv snd_conv index_loop_upt)
  qed
  have "concat (map batch_calls (batch_loop 0 ((cnt + bs - 1) div bs) bs cnt))
        = concat (map (\<lambda>j. map of_nat [j * ?b..<min (Suc j * ?b) ?n]) [0..<?m])"
    unfolding plan map_map comp_def using calls by (intro arg_cong [of _ _ concat] map_cong) simp_all
  also have "\<dots> = map of_nat (concat (map (\<lambda>j. [j * ?b..<min (Suc j * ?b) ?n]) [0..<?m]))"
    by (simp add: map_concat comp_def)
  also have "\<dots> = map of_nat [0..<min (?m * ?b) ?n]" by (simp only: concat_chunks [OF b])
  also have "min (?m * ?b) ?n = ?n" using mb_ge by simp
  finally show ?thesis using plan by simp
qed

lemma Execute_nothing_to_do:
  "Execute 0 workerCount batchSize
     = Some \<lparr>direct_calls = [], effective_batchSize = batchSize, submitted = []\<rparr>"
  by (simp add: Execute_def)

lemma Execute_serial:
  "cnt \<noteq> 0 \<Longrightarrow> map_option all_calls (Execute cnt 0 batchSize) = Some (map of_nat [0..<unat cnt])"
  by (simp add: Execute_def all_calls_def index_loop_upt)

lemma Execute_batches:
  assumes "cnt \<noteq> 0" and "workerCount \<noteq> 0" and "batchSize \<noteq> 0"
    and "unat cnt + unat batchSize - 1 < 2 ^ 32"
  shows "\<exists>e. Execute cnt workerCount batchSize = Some e
           \<and> direct_calls e = [] \<and> effective_batchSize e = batchSize
           \<and> submitted e
               = map (\<lambda>j. (of_nat (j * unat batchSize),
                            of_nat (min (Suc j * unat batchSize) (unat cnt))))
                   [0..<(unat cnt + unat batchSize - 1) div unat batchSize]
           \<and> all_calls e = map of_nat [0..<unat cnt]"
proof -
  define e where "e = \<lparr>direct_calls = [], effective_batchSize = batchSize,
    submitted = batch_loop 0 ((cnt + batchSize - 1) div batchSize) batchSize cnt\<rparr>"
  from assms(1,2,3) have ex: "Execute cnt workerCount batchSize = Some e"
    by (simp add: Execute_def Let_def e_def)
  have f: "direct_calls e = []" "effective_batchSize e = batchSize"
    "submitted e = batch_loop 0 ((cnt + batchSize - 1) div batchSize) batchSize cnt"
    by (simp_all add: e_def)
  have c: "all_calls e = concat (map batch_calls (submitted e))"
    by (simp add: all_calls_def f(1))
  note pb = planned_batches [OF assms(3,4)]
  from pb have a: "submitted e
               = map (\<lambda>j. (of_nat (j * unat batchSize),
                            of_nat (min (Suc j * unat batchSize) (unat cnt))))
                   [0..<(unat cnt + unat batchSize - 1) div unat batchSize]"
    unfolding f(3) by (rule conjunct1)
  from pb have b: "all_calls e = map of_nat [0..<unat cnt]"
    unfolding c f(3) by (rule conjunct2)
  from ex f(1,2) a b show ?thesis by blast
qed

lemma auto_batchSize:
  fixes cnt workerCount :: u32
  assumes "workerCount \<noteq> 0" and "unat workerCount < 2 ^ 30"
  shows "workerCount * 4 \<noteq> 0
       \<and> unat (max 1 (cnt div (workerCount * 4))) = max 1 (unat cnt div (unat workerCount * 4))"
proof -
  have "unat (workerCount * 4) = (unat workerCount * 4) mod 2 ^ LENGTH(32)"
    by (simp add: unat_word_ariths)
  with assms(2) have w4: "unat (workerCount * 4) = unat workerCount * 4" by simp
  from assms(1) have "0 < unat workerCount" by (simp add: unat_gt_0)
  with w4 have nz: "workerCount * 4 \<noteq> 0" by (metis unat_gt_0 mult_pos_pos zero_less_numeral)
  have q: "unat (cnt div (workerCount * 4)) = unat cnt div (unat workerCount * 4)"
    by (simp only: unat_div w4)
  have "unat (max 1 (cnt div (workerCount * 4))) = max 1 (unat (cnt div (workerCount * 4)))"
    by (simp add: max_def word_le_nat_alt)
  with nz q show ?thesis by simp
qed

lemma Execute_auto_batches:
  assumes "cnt \<noteq> 0" and "workerCount \<noteq> 0" and "unat workerCount < 2 ^ 30"
    and "unat cnt + max 1 (unat cnt div (unat workerCount * 4)) - 1 < 2 ^ 32"
  shows "\<exists>e. Execute cnt workerCount 0 = Some e
           \<and> effective_batchSize e = max 1 (cnt div (workerCount * 4))
           \<and> unat (effective_batchSize e) = max 1 (unat cnt div (unat workerCount * 4))
           \<and> length (submitted e)
               = (unat cnt + unat (effective_batchSize e) - 1) div unat (effective_batchSize e)
           \<and> all_calls e = map of_nat [0..<unat cnt]"
proof -
  let ?bs = "max 1 (cnt div (workerCount * 4))"
  from auto_batchSize [OF assms(2,3), of cnt]
  have nz: "workerCount * 4 \<noteq> 0"
    and ub: "unat ?bs = max 1 (unat cnt div (unat workerCount * 4))" by simp_all
  from ub have "0 < unat ?bs" by simp
  then have bs: "?bs \<noteq> 0" using unat_gt_0 by blast
  from assms(4) have wrap: "unat cnt + unat ?bs - 1 < 2 ^ 32" unfolding ub .
  from Execute_batches [OF assms(1,2) bs wrap] obtain e
    where e: "Execute cnt workerCount ?bs = Some e" "effective_batchSize e = ?bs"
      "submitted e = map (\<lambda>j. (of_nat (j * unat ?bs), of_nat (min (Suc j * unat ?bs) (unat cnt))))
                   [0..<(unat cnt + unat ?bs - 1) div unat ?bs]"
      "all_calls e = map of_nat [0..<unat cnt]" by blast
  from assms(1,2) nz bs have "Execute cnt workerCount 0 = Execute cnt workerCount ?bs"
    by (simp add: Execute_def Let_def)
  with e(1) have ex: "Execute cnt workerCount 0 = Some e" by simp
  from e(3) have "length (submitted e) = (unat cnt + unat ?bs - 1) div unat ?bs" by simp
  then have len: "length (submitted e)
      = (unat cnt + unat (effective_batchSize e) - 1) div unat (effective_batchSize e)"
    unfolding e(2) .
  have ub': "unat (effective_batchSize e) = max 1 (unat cnt div (unat workerCount * 4))"
    unfolding e(2) by (rule ub)
  from ex e(2,4) len ub' show ?thesis by blast
qed

lemma Execute_thousand_items_four_workers:
  "map_option (\<lambda>e. (effective_batchSize e, length (submitted e))) (Execute 1000 4 0)
     = Some (62, 17)"
  by (simp add: Execute_def batch_loop.simps)

section \<open>ParallelFor on large arguments\<close>

text \<open>
  C1 (defect in the code). The number of batches is computed as
  \<open>(count + batchSize - 1) / batchSize\<close> in 32 bits. With one worker,
  \<^verbatim>\<open>Execute(2, fn, 4294967295)\<close> wraps the sum to 0, submits no batch and calls \<^verbatim>\<open>fn\<close> for
  no index, although indices 0 and 1 are in range.
\<close>

theorem Execute_batch_count_wraps:
  "Execute 2 1 4294967295
     = Some \<lparr>direct_calls = [], effective_batchSize = 4294967295, submitted = []\<rparr>
   \<and> map_option all_calls (Execute 2 1 4294967295) = Some []"
  by (simp add: Execute_def all_calls_def batch_loop.simps)

text \<open>
  C5 (defect in the code). With one worker and the automatic batch size,
  \<^verbatim>\<open>Execute(4294967295, fn)\<close> settles on batch size \<open>4294967295 div 4 = 1073741823\<close>, for
  which the rounded-up quotient is 5, but the 32-bit sum wraps and no batch is submitted.
\<close>

theorem Execute_auto_batch_count_wraps:
  "Execute 4294967295 1 0
     = Some \<lparr>direct_calls = [], effective_batchSize = 1073741823, submitted = []\<rparr>
   \<and> (4294967295 + 1073741823 - 1) div 1073741823 = (5 :: nat)"
  by (simp add: Execute_def batch_loop.simps)

section \<open>The queue order\<close>

lemma set_insert_task: "set (insert_task q t) = insert t (set q)"
  by (induction q) auto

lemma insert_task_sorted:
  "queue_sorted stamp q \<Longrightarrow> \<forall>x\<in>set q. stamp x < stamp t \<Longrightarrow> queue_sorted stamp (insert_task q t)"
proof (induction q)
  case Nil
  then show ?case by (simp add: queue_sorted_def)
next
  case (Cons x q)
  show ?case
  proof (cases "priority_value (Priority x) \<ge> priority_value (Priority t)")
    case True
    from Cons.prems have "queue_sorted stamp q" "\<forall>y\<in>set q. stamp y < stamp t"
      by (simp_all add: queue_sorted_def)
    then have "queue_sorted stamp (insert_task q t)" by (rule Cons.IH)
    moreover from True Cons.prems have "queue_order stamp x t"
      by (auto simp: queue_order_def)
    ultimately show ?thesis using True Cons.prems
      by (simp add: queue_sorted_def set_insert_task)
  next
    case False
    then have lt: "priority_value (Priority x) < priority_value (Priority t)" by simp
    have "queue_order stamp t y" if "y \<in> set (x # q)" for y
    proof (cases "y = x")
      case True with lt show ?thesis by (simp add: queue_order_def)
    next
      case False
      with that Cons.prems(1) have "queue_order stamp x y" by (auto simp: queue_sorted_def)
      with lt show ?thesis by (auto simp: queue_order_def)
    qed
    with False Cons.prems(1) show ?thesis by (simp add: queue_sorted_def)
  qed
qed

lemma queue_sorted_tl: "queue_sorted stamp q \<Longrightarrow> queue_sorted stamp (tl q)"
  by (cases q) (simp_all add: queue_sorted_def)

lemma queue_sorted_butlast: "queue_sorted stamp q \<Longrightarrow> queue_sorted stamp (butlast q)"
proof (cases "q = []")
  case False
  assume "queue_sorted stamp q"
  moreover from False have "q = butlast q @ [last q]" by simp
  ultimately have "sorted_wrt (queue_order stamp) (butlast q @ [last q])"
    by (simp add: queue_sorted_def)
  then show ?thesis by (simp add: queue_sorted_def sorted_wrt_append)
qed (simp add: queue_sorted_def)

lemma queue_sorted_front:
  "queue_sorted stamp q \<Longrightarrow> x \<in> set (tl q) \<Longrightarrow> queue_order stamp (hd q) x"
  by (cases q) (auto simp: queue_sorted_def)

lemma queue_sorted_back:
  assumes "queue_sorted stamp q" and "x \<in> set (butlast q)"
  shows "queue_order stamp x (last q)"
proof -
  from assms(2) have "q \<noteq> []" by auto
  then have "q = butlast q @ [last q]" by simp
  with assms(1) have "sorted_wrt (queue_order stamp) (butlast q @ [last q])"
    by (simp add: queue_sorted_def)
  with assms(2) show ?thesis by (simp add: sorted_wrt_append)
qed

lemma steal_attempts_None:
  "steal_attempts draws queues = (None, queues') \<Longrightarrow>
     queues' = queues \<and> (\<forall>d\<in>set draws. \<not> (snd d \<and> queues ! fst d \<noteq> []))"
proof (induction draws)
  case Nil
  then show ?case by simp
next
  case (Cons d draws)
  obtain i l where d: "d = (i, l)" by (cases d)
  from Cons.prems d have fail: "\<not> (l \<and> queues ! i \<noteq> [])"
    by (auto split: if_splits)
  with Cons.prems d have "steal_attempts draws queues = (None, queues')" by auto
  from Cons.IH [OF this] fail d show ?case by auto
qed

lemma steal_attempts_Some:
  "steal_attempts draws queues = (Some task, queues') \<Longrightarrow>
     \<exists>k<length draws.
        snd (draws ! k) \<and> queues ! fst (draws ! k) \<noteq> []
        \<and> task = last (queues ! fst (draws ! k))
        \<and> queues' = queues[fst (draws ! k) := butlast (queues ! fst (draws ! k))]
        \<and> (\<forall>j<k. \<not> (snd (draws ! j) \<and> queues ! fst (draws ! j) \<noteq> []))"
proof (induction draws)
  case Nil
  then show ?case by simp
next
  case (Cons d draws)
  obtain i l where d: "d = (i, l)" by (cases d)
  show ?case
  proof (cases "l \<and> queues ! i \<noteq> []")
    case True
    with Cons.prems d have "task = last (queues ! i)" "queues' = queues[i := butlast (queues ! i)]"
      by auto
    with True d show ?thesis by (intro exI [of _ 0]) simp
  next
    case False
    with Cons.prems d have "steal_attempts draws queues = (Some task, queues')" by auto
    from Cons.IH [OF this] obtain k where k: "k < length draws"
      "snd (draws ! k)" "queues ! fst (draws ! k) \<noteq> []"
      "task = last (queues ! fst (draws ! k))"
      "queues' = queues[fst (draws ! k) := butlast (queues ! fst (draws ! k))]"
      "\<forall>j<k. \<not> (snd (draws ! j) \<and> queues ! fst (draws ! j) \<noteq> [])" by blast
    have "\<not> (snd ((d # draws) ! j) \<and> queues ! fst ((d # draws) ! j) \<noteq> [])" if "j < Suc k" for j
      using that False d k(6) by (cases j) auto
    with k show ?thesis by (intro exI [of _ "Suc k"]) simp
  qed
qed

lemma set_tl_subset: "set (tl q) \<subseteq> set q"
  by (cases q) auto

lemma TryPopTask_cases:
  "snd (TryPopTask owns_lock i queues) = queues
   \<or> snd (TryPopTask owns_lock i queues) = queues[i := tl (queues ! i)]"
  by (simp add: TryPopTask_def)

lemma TryStealTask_cases:
  "snd (TryStealTask draws queues) = queues
   \<or> (\<exists>i. snd (TryStealTask draws queues) = queues[i := butlast (queues ! i)])"
proof (cases "TryStealTask draws queues")
  case (Pair r queues')
  show ?thesis
  proof (cases r)
    case None
    with Pair show ?thesis by (auto simp: TryStealTask_def dest: steal_attempts_None)
  next
    case (Some task)
    with Pair show ?thesis by (auto simp: TryStealTask_def dest!: steal_attempts_Some)
  qed
qed

lemma queues_ok_update:
  assumes "queues_ok stamp later queues" and "i < length queues"
    and "queue_sorted stamp q'" and "set q' \<subseteq> set (queues ! i)"
  shows "queues_ok stamp later (queues[i := q'])"
proof -
  from assms(2) have mem: "queues ! i \<in> set queues" by simp
  have "queue_sorted stamp q \<and> (\<forall>x\<in>set q. \<forall>t\<in>set later. stamp x < stamp t)"
    if "q \<in> set (queues[i := q'])" for q
  proof -
    from that have "q = q' \<or> q \<in> set queues"
      using set_update_subset_insert [of queues i q'] by auto
    then show ?thesis
    proof
      assume "q = q'"
      with assms(1,3,4) mem show ?thesis unfolding queues_ok_def by blast
    next
      assume "q \<in> set queues"
      with assms(1) show ?thesis unfolding queues_ok_def by blast
    qed
  qed
  then show ?thesis unfolding queues_ok_def by blast
qed

lemma queues_ok_update_any:
  assumes "queues_ok stamp later queues"
    and "queue_sorted stamp (queues ! i) \<Longrightarrow> queue_sorted stamp q'" and "set q' \<subseteq> set (queues ! i)"
  shows "queues_ok stamp later (queues[i := q'])"
proof (cases "i < length queues")
  case True
  then have "queues ! i \<in> set queues" by simp
  with assms(1) have "queue_sorted stamp (queues ! i)" unfolding queues_ok_def by blast
  with assms True show ?thesis by (intro queues_ok_update) auto
next
  case False
  with assms(1) show ?thesis by (simp add: list_update_beyond)
qed

lemma queues_ok_apply_op:
  assumes "queues_ok stamp (pushed (op # ops)) queues"
    and "op_defined (length queues) op"
    and "sorted_wrt (\<lambda>a b. stamp a < stamp b) (pushed (op # ops))"
  shows "queues_ok stamp (pushed ops) (apply_op op queues)"
proof (cases op)
  case (OpPushTask task i)
  with assms(2) have i: "i < length queues" by simp
  then have mem: "queues ! i \<in> set queues" by simp
  from OpPushTask assms(1) mem have srt: "queue_sorted stamp (queues ! i)"
    and old: "\<forall>x\<in>set (queues ! i). stamp x < stamp task"
    unfolding queues_ok_def by auto
  from OpPushTask assms(3) have new: "\<forall>t\<in>set (pushed ops). stamp task < stamp t" by simp
  have "queue_sorted stamp q \<and> (\<forall>x\<in>set q. \<forall>t\<in>set (pushed ops). stamp x < stamp t)"
    if "q \<in> set (queues[i := insert_task (queues ! i) task])" for q
  proof -
    from that have "q = insert_task (queues ! i) task \<or> q \<in> set queues"
      using set_update_subset_insert [of queues i] by auto
    then show ?thesis
    proof
      assume q: "q = insert_task (queues ! i) task"
      have "queue_sorted stamp q" unfolding q using srt old by (rule insert_task_sorted)
      moreover have "\<forall>x\<in>set q. \<forall>t\<in>set (pushed ops). stamp x < stamp t"
        using assms(1) mem new OpPushTask unfolding q set_insert_task queues_ok_def by auto
      ultimately show ?thesis by simp
    next
      assume "q \<in> set queues"
      with assms(1) OpPushTask show ?thesis unfolding queues_ok_def by auto
    qed
  qed
  with OpPushTask show ?thesis unfolding queues_ok_def by (simp add: PushTask_def)
next
  case (OpTryPopTask owns_lock i)
  with assms(1) have ok: "queues_ok stamp (pushed ops) queues" by simp
  have "queues_ok stamp (pushed ops) (queues[i := tl (queues ! i)])"
  proof (rule queues_ok_update_any [OF ok])
    show "queue_sorted stamp (tl (queues ! i))" if "queue_sorted stamp (queues ! i)"
      using that by (rule queue_sorted_tl)
    show "set (tl (queues ! i)) \<subseteq> set (queues ! i)" by (rule set_tl_subset)
  qed
  with ok OpTryPopTask TryPopTask_cases [of owns_lock i queues] show ?thesis by auto
next
  case (OpTryStealTask draws)
  with assms(1) have ok: "queues_ok stamp (pushed ops) queues" by simp
  have "queues_ok stamp (pushed ops) (queues[i := butlast (queues ! i)])" for i
  proof (rule queues_ok_update_any [OF ok])
    show "queue_sorted stamp (butlast (queues ! i))" if "queue_sorted stamp (queues ! i)"
      using that by (rule queue_sorted_butlast)
    show "set (butlast (queues ! i)) \<subseteq> set (queues ! i)" by (auto dest: in_set_butlastD)
  qed
  with ok OpTryStealTask TryStealTask_cases [of draws queues] show ?thesis by auto
qed

lemma length_apply_op: "length (apply_op op queues) = length queues"
proof (cases op)
  case (OpPushTask task i)
  then show ?thesis by (simp add: PushTask_def)
next
  case (OpTryPopTask owns_lock i)
  then show ?thesis using TryPopTask_cases [of owns_lock i queues] by auto
next
  case (OpTryStealTask draws)
  then show ?thesis using TryStealTask_cases [of draws queues] by auto
qed

lemma sorted_wrt_pushed_tail:
  "sorted_wrt R (pushed (op # ops)) \<Longrightarrow> sorted_wrt R (pushed ops)"
  by (cases op) simp_all

lemma queues_ok_run_ops:
  "queues_ok stamp (pushed ops) queues \<Longrightarrow> list_all (op_defined (length queues)) ops \<Longrightarrow>
   sorted_wrt (\<lambda>a b. stamp a < stamp b) (pushed ops) \<Longrightarrow>
   queues_ok stamp [] (run_ops ops queues)"
proof (induction ops arbitrary: queues)
  case Nil
  then show ?case by simp
next
  case (Cons op ops)
  from Cons.prems have "queues_ok stamp (pushed ops) (apply_op op queues)"
    by (intro queues_ok_apply_op) simp_all
  moreover from Cons.prems have "list_all (op_defined (length (apply_op op queues))) ops"
    by (simp add: length_apply_op)
  moreover from Cons.prems(3) have "sorted_wrt (\<lambda>a b. stamp a < stamp b) (pushed ops)"
    by (rule sorted_wrt_pushed_tail)
  ultimately show ?case using Cons.IH by simp
qed

text \<open>
  C2. Starting from the empty queues of a fresh scheduler, after any sequence of
  \<^verbatim>\<open>PushTask\<close>, \<^verbatim>\<open>TryPopTask\<close> and \<^verbatim>\<open>TryStealTask\<close> operations (with queue indices in
  range) whose pushed tasks carry increasing insertion stamps, every queue is sorted by
  descending priority with ties in insertion order, so the front task precedes every
  other task of its queue; and \<^verbatim>\<open>PushTask\<close> of a task newer than the tasks of its target
  queue keeps every queue so sorted.
\<close>

theorem queues_stay_in_queue_order:
  assumes "list_all (op_defined n) ops"
    and "sorted_wrt (\<lambda>a b. stamp a < stamp b) (pushed ops)"
  shows "list_all (queue_sorted stamp) (run_ops ops (replicate n []))
       \<and> (\<forall>q\<in>set (run_ops ops (replicate n [])). \<forall>x\<in>set (tl q). queue_order stamp (hd q) x)
       \<and> (\<forall>queues task i.
             list_all (queue_sorted stamp) queues \<and> i < length queues
             \<and> (\<forall>x\<in>set (queues ! i). stamp x < stamp task)
             \<longrightarrow> list_all (queue_sorted stamp) (PushTask task i queues))"
proof -
  have "queues_ok stamp (pushed ops) (replicate n [])"
    by (auto simp: queues_ok_def queue_sorted_def)
  moreover from assms(1) have "list_all (op_defined (length (replicate n ([] :: 'a Task list)))) ops"
    by simp
  ultimately have "queues_ok stamp [] (run_ops ops (replicate n []))"
    using assms(2) by (rule queues_ok_run_ops)
  then have srt: "\<forall>q\<in>set (run_ops ops (replicate n [])). queue_sorted stamp q"
    by (simp add: queues_ok_def)
  then have front: "\<forall>q\<in>set (run_ops ops (replicate n [])). \<forall>x\<in>set (tl q). queue_order stamp (hd q) x"
    by (blast intro: queue_sorted_front)
  have push: "list_all (queue_sorted stamp) (PushTask task i queues)"
    if "list_all (queue_sorted stamp) queues" "i < length queues"
       "\<forall>x\<in>set (queues ! i). stamp x < stamp task" for queues task i
  proof -
    from that(1,2) have "queue_sorted stamp (queues ! i)" by (simp add: list_all_length)
    then have "queue_sorted stamp (insert_task (queues ! i) task)"
      using that(3) by (rule insert_task_sorted)
    with that(1) show ?thesis
      using set_update_subset_insert [of queues i "insert_task (queues ! i) task"]
      by (auto simp: PushTask_def list_all_iff)
  qed
  from srt have "list_all (queue_sorted stamp) (run_ops ops (replicate n []))"
    by (simp add: list_all_iff)
  with front push show ?thesis by blast
qed

theorem queues_stay_in_queue_order_witness:
  "list_all (op_defined 1)
     [OpPushTask \<lparr>Function = Some (0 :: nat), Priority = Low, Handle = \<lparr>m_Counter = Some 0\<rparr>\<rparr> 0,
      OpPushTask \<lparr>Function = Some (1 :: nat), Priority = High, Handle = \<lparr>m_Counter = Some 1\<rparr>\<rparr> 0,
      OpPushTask \<lparr>Function = Some (2 :: nat), Priority = Low, Handle = \<lparr>m_Counter = Some 2\<rparr>\<rparr> 0,
      OpPushTask \<lparr>Function = Some (3 :: nat), Priority = Normal, Handle = \<lparr>m_Counter = Some 3\<rparr>\<rparr> 0,
      OpTryPopTask True 0,
      OpTryStealTask [(0, True)]]
   \<and> run_ops
     [OpPushTask \<lparr>Function = Some (0 :: nat), Priority = Low, Handle = \<lparr>m_Counter = Some 0\<rparr>\<rparr> 0,
      OpPushTask \<lparr>Function = Some (1 :: nat), Priority = High, Handle = \<lparr>m_Counter = Some 1\<rparr>\<rparr> 0,
      OpPushTask \<lparr>Function = Some (2 :: nat), Priority = Low, Handle = \<lparr>m_Counter = Some 2\<rparr>\<rparr> 0,
      OpPushTask \<lparr>Function = Some (3 :: nat), Priority = Normal, Handle = \<lparr>m_Counter = Some 3\<rparr>\<rparr> 0,
      OpTryPopTask True 0,
      OpTryStealTask [(0, True)]] (replicate 1 [])
     = [[\<lparr>Function = Some (3 :: nat), Priority = Normal, Handle = \<lparr>m_Counter = Some 3\<rparr>\<rparr>,
         \<lparr>Function = Some (0 :: nat), Priority = Low, Handle = \<lparr>m_Counter = Some 0\<rparr>\<rparr>]]
   \<and> list_all (queue_sorted (\<lambda>t. the (m_Counter (Handle t))))
       [[\<lparr>Function = Some (3 :: nat), Priority = Normal, Handle = \<lparr>m_Counter = Some 3\<rparr>\<rparr>,
         \<lparr>Function = Some (0 :: nat), Priority = Low, Handle = \<lparr>m_Counter = Some 0\<rparr>\<rparr>]]"
  using queues_stay_in_queue_order [where n = 1 and stamp = "\<lambda>t. the (m_Counter (Handle t))" and ops =
    "[OpPushTask \<lparr>Function = Some (0 :: nat), Priority = Low, Handle = \<lparr>m_Counter = Some 0\<rparr>\<rparr> 0,
      OpPushTask \<lparr>Function = Some (1 :: nat), Priority = High, Handle = \<lparr>m_Counter = Some 1\<rparr>\<rparr> 0,
      OpPushTask \<lparr>Function = Some (2 :: nat), Priority = Low, Handle = \<lparr>m_Counter = Some 2\<rparr>\<rparr> 0,
      OpPushTask \<lparr>Function = Some (3 :: nat), Priority = Normal, Handle = \<lparr>m_Counter = Some 3\<rparr>\<rparr> 0,
      OpTryPopTask True 0,
      OpTryStealTask [(0, True)]]"]
  by (simp add: PushTask_def TryPopTask_def TryStealTask_def)

text \<open>
  C6. \<^verbatim>\<open>TryStealTask\<close> makes at most one attempt per queue, each on the queue drawn for
  it and with a non-blocking lock attempt. It fails, leaving the queues as they are,
  when no attempt owns the lock of a non-empty queue. Otherwise the first such attempt
  removes and returns the back element of its queue; when that queue is in queue order,
  every task left in it precedes the stolen one, which is therefore the lowest-priority,
  newest-among-equals task of the queue.
\<close>

theorem TryStealTask_takes_back:
  "case TryStealTask draws queues of
     (None, queues') \<Rightarrow>
       queues' = queues
       \<and> (\<forall>d\<in>set (take (length queues) draws). \<not> (snd d \<and> queues ! fst d \<noteq> []))
   | (Some task, queues') \<Rightarrow>
       (\<exists>k. k < length queues \<and> k < length draws
          \<and> snd (draws ! k) \<and> queues ! fst (draws ! k) \<noteq> []
          \<and> task = last (queues ! fst (draws ! k))
          \<and> queues' = queues[fst (draws ! k) := butlast (queues ! fst (draws ! k))]
          \<and> (\<forall>j<k. \<not> (snd (draws ! j) \<and> queues ! fst (draws ! j) \<noteq> []))
          \<and> (queue_sorted stamp (queues ! fst (draws ! k))
               \<longrightarrow> (\<forall>x\<in>set (butlast (queues ! fst (draws ! k))). queue_order stamp x task)))"
proof (cases "TryStealTask draws queues")
  case (Pair r queues')
  show ?thesis
  proof (cases r)
    case None
    with Pair have "steal_attempts (take (length queues) draws) queues = (None, queues')"
      by (simp add: TryStealTask_def)
    from steal_attempts_None [OF this] Pair None show ?thesis by simp
  next
    case (Some task)
    with Pair have "steal_attempts (take (length queues) draws) queues = (Some task, queues')"
      by (simp add: TryStealTask_def)
    from steal_attempts_Some [OF this] obtain k where k: "k < length queues" "k < length draws"
      "snd (draws ! k)" "queues ! fst (draws ! k) \<noteq> []"
      "task = last (queues ! fst (draws ! k))"
      "queues' = queues[fst (draws ! k) := butlast (queues ! fst (draws ! k))]"
      "\<forall>j<k. \<not> (snd (draws ! j) \<and> queues ! fst (draws ! j) \<noteq> [])"
      by auto
    have "queue_order stamp x task"
      if "queue_sorted stamp (queues ! fst (draws ! k))"
         "x \<in> set (butlast (queues ! fst (draws ! k)))" for x
      unfolding k(5) using that by (rule queue_sorted_back)
    with k have "\<exists>k. k < length queues \<and> k < length draws
          \<and> snd (draws ! k) \<and> queues ! fst (draws ! k) \<noteq> []
          \<and> task = last (queues ! fst (draws ! k))
          \<and> queues' = queues[fst (draws ! k) := butlast (queues ! fst (draws ! k))]
          \<and> (\<forall>j<k. \<not> (snd (draws ! j) \<and> queues ! fst (draws ! j) \<noteq> []))
          \<and> (queue_sorted stamp (queues ! fst (draws ! k))
               \<longrightarrow> (\<forall>x\<in>set (butlast (queues ! fst (draws ! k))). queue_order stamp x task))"
      by (intro exI [of _ k]) blast
    with Pair Some show ?thesis by simp
  qed
qed

theorem TryStealTask_takes_back_witness:
  "TryStealTask [(0, True), (2, False), (2, True)]
     [[], [],
      [\<lparr>Function = Some (1 :: nat), Priority = High, Handle = \<lparr>m_Counter = Some 1\<rparr>\<rparr>,
       \<lparr>Function = Some (0 :: nat), Priority = Low, Handle = \<lparr>m_Counter = Some 0\<rparr>\<rparr>,
       \<lparr>Function = Some (2 :: nat), Priority = Low, Handle = \<lparr>m_Counter = Some 2\<rparr>\<rparr>]]
   = (Some \<lparr>Function = Some (2 :: nat), Priority = Low, Handle = \<lparr>m_Counter = Some 2\<rparr>\<rparr>,
      [[], [],
      [\<lparr>Function = Some (1 :: nat), Priority = High, Handle = \<lparr>m_Counter = Some 1\<rparr>\<rparr>,
       \<lparr>Function = Some (0 :: nat), Priority = Low, Handle = \<lparr>m_Counter = Some 0\<rparr>\<rparr>]])
   \<and> queue_order (\<lambda>t. the (m_Counter (Handle t)))
        \<lparr>Function = Some (0 :: nat), Priority = Low, Handle = \<lparr>m_Counter = Some 0\<rparr>\<rparr>
        \<lparr>Function = Some (2 :: nat), Priority = Low, Handle = \<lparr>m_Counter = Some 2\<rparr>\<rparr>"
  using TryStealTask_takes_back [where draws = "[(0, True), (2, False), (2, True)]"
     and stamp = "\<lambda>t. the (m_Counter (Handle t))" and queues =
     "[[], [],
      [\<lparr>Function = Some (1 :: nat), Priority = High, Handle = \<lparr>m_Counter = Some 1\<rparr>\<rparr>,
       \<lparr>Function = Some (0 :: nat), Priority = Low, Handle = \<lparr>m_Counter = Some 0\<rparr>\<rparr>,
       \<lparr>Function = Some (2 :: nat), Priority = Low, Handle = \<lparr>m_Counter = Some 2\<rparr>\<rparr>]]"]
  by (simp add: TryStealTask_def queue_sorted_def queue_order_def)

section \<open>Effects of a step\<close>

lemma mset_concat_map_update:
  "i < length xs \<Longrightarrow>
     mset (concat (map f (xs[i := v]))) + mset (f (xs ! i)) = mset (concat (map f xs)) + mset (f v)"
proof (induction xs arbitrary: i)
  case Nil
  then show ?case by simp
next
  case (Cons x xs)
  show ?case
  proof (cases i)
    case 0
    then show ?thesis by simp
  next
    case (Suc j)
    with Cons.prems have "j < length xs" by simp
    from Cons.IH [OF this] Suc show ?thesis by (simp add: ac_simps)
  qed
qed

lemma mset_concat_update:
  "i < length xs \<Longrightarrow> mset (concat (xs[i := v])) + mset (xs ! i) = mset (concat xs) + mset v"
  using mset_concat_map_update [of i xs "\<lambda>x. x" v] by simp

lemma mset_insert_task: "mset (insert_task q t) = add_mset t (mset q)"
  by (induction q) simp_all

lemma ts_held_set_pc:
  "i < length (m_Workers ts) \<Longrightarrow>
     mset (ts_held (set_pc i pc ts)) + mset (held_task (m_Workers ts ! i))
       = mset (ts_held ts) + mset (held_task pc)"
  by (simp add: ts_held_def set_pc_def mset_concat_map_update)

lemma ts_queued_set_pc [simp]: "ts_queued (set_pc i pc ts) = ts_queued ts"
  by (simp add: ts_queued_def set_pc_def)

lemma held_task_mem:
  "i < length (m_Workers ts) \<Longrightarrow> t \<in> set (held_task (m_Workers ts ! i)) \<Longrightarrow> t \<in> set (ts_held ts)"
  by (auto simp: ts_held_def)

lemma TryPopTask_Some:
  assumes "TryPopTask owns_lock i queues = (Some t, queues')" and "i < length queues"
  shows "mset (concat queues') + {#t#} = mset (concat queues) \<and> length queues' = length queues"
proof -
  from assms(1) have ne: "queues ! i \<noteq> []" and t: "t = hd (queues ! i)"
    and q': "queues' = queues[i := tl (queues ! i)]"
    by (auto simp: TryPopTask_def split: if_splits)
  from ne t have "mset (queues ! i) = mset (tl (queues ! i)) + {#t#}"
    by (cases "queues ! i") simp_all
  with mset_concat_update [OF assms(2), of "tl (queues ! i)"] q' show ?thesis by simp
qed

lemma TryPopTask_None: "TryPopTask owns_lock i queues = (None, queues') \<Longrightarrow> queues' = queues"
  by (auto simp: TryPopTask_def split: if_splits)

lemma TryStealTask_None: "TryStealTask draws queues = (None, queues') \<Longrightarrow> queues' = queues"
  by (auto simp: TryStealTask_def dest: steal_attempts_None)

lemma TryStealTask_Some:
  assumes "TryStealTask draws queues = (Some t, queues')"
    and "list_all (\<lambda>d. fst d < length queues) draws"
  shows "mset (concat queues') + {#t#} = mset (concat queues) \<and> length queues' = length queues"
proof -
  let ?ds = "take (length queues) draws"
  from assms(1) have "steal_attempts ?ds queues = (Some t, queues')"
    by (simp add: TryStealTask_def)
  from steal_attempts_Some [OF this] obtain k where k: "k < length ?ds"
    "queues ! fst (?ds ! k) \<noteq> []" "t = last (queues ! fst (?ds ! k))"
    "queues' = queues[fst (?ds ! k) := butlast (queues ! fst (?ds ! k))]" by blast
  let ?i = "fst (?ds ! k)"
  from k(1) have "?ds ! k \<in> set draws" by (metis in_set_takeD nth_mem)
  with assms(2) have i: "?i < length queues" by (auto simp: list_all_iff)
  from k(2,3) have "mset (queues ! ?i) = mset (butlast (queues ! ?i)) + {#t#}"
    by (metis append_butlast_last_id mset_append mset_single_iff_right mset.simps(1) mset.simps(2) union_mset_add_mset_right add.right_neutral)
  with mset_concat_update [OF i, of "butlast (queues ! ?i)"] k(4) show ?thesis by simp
qed

lemma worker_effect:
  assumes inst: "s_Instance w = Some ts"
    and i: "i < length (m_Workers ts)"
    and draws: "list_all (\<lambda>d. fst d < length (m_Queues ts)) draws"
    and len: "length (m_Queues ts) = length (m_Workers ts)"
    and w'_def: "w' = WorkerThreadFunction i owns_lock draws ts w"
  shows "same_shape w w' \<and> (moves w w' \<or> (\<exists>t. accounts t w w'))"
proof (cases "m_Workers ts ! i")
  case AtLoop
  let ?ts' = "set_pc i (if m_Running ts then Fetching else Exited) ts"
  from AtLoop have w': "w' = w\<lparr>s_Instance := Some ?ts'\<rparr>"
    by (simp add: w'_def WorkerThreadFunction_def)
  from ts_held_set_pc [OF i, of "if m_Running ts then Fetching else Exited"] AtLoop
  have "mset (ts_held ?ts') = mset (ts_held ts)" by simp
  with inst w' have "moves w w'" by (simp add: moves_def queued_tasks_def held_tasks_def)
  moreover from inst w' have "same_shape w w'" by (simp add: same_shape_def set_pc_def)
  ultimately show ?thesis by simp
next
  case Fetching
  have iq: "i < length (m_Queues ts)" using i len by simp
  obtain r qs1 where pop: "TryPopTask owns_lock i (m_Queues ts) = (r, qs1)" by fastforce
  obtain r2 qs2 where steal: "TryStealTask draws (m_Queues ts) = (r2, qs2)" by fastforce
  have taken: "same_shape w w' \<and> moves w w'"
    if w': "w' = w\<lparr>s_Instance := Some (set_pc i (Holding t) (ts\<lparr>m_Queues := qs'\<rparr>))\<rparr>"
      and ms: "mset (concat qs') + {#t#} = mset (concat (m_Queues ts))"
      and l: "length qs' = length (m_Queues ts)" for t qs'
  proof -
    let ?ts1 = "ts\<lparr>m_Queues := qs'\<rparr>"
    have "i < length (m_Workers ?ts1)" using i by simp
    from ts_held_set_pc [OF this, of "Holding t"] Fetching
    have h: "mset (ts_held (set_pc i (Holding t) ?ts1)) = mset (ts_held ts) + {#t#}"
      by (simp add: ts_held_def)
    have q: "ts_queued (set_pc i (Holding t) ?ts1) = concat qs'" by (simp add: ts_queued_def set_pc_def)
    from h q ms inst w' have "moves w w'"
      by (simp add: moves_def queued_tasks_def held_tasks_def ts_queued_def)
    moreover from inst w' l have "same_shape w w'" by (simp add: same_shape_def set_pc_def)
    ultimately show ?thesis by simp
  qed
  show ?thesis
  proof (cases r)
    case (Some t)
    with pop Fetching have "w' = w\<lparr>s_Instance := Some (set_pc i (Holding t) (ts\<lparr>m_Queues := qs1\<rparr>))\<rparr>"
      by (simp add: w'_def WorkerThreadFunction_def)
    moreover from pop Some TryPopTask_Some [OF _ iq]
    have "mset (concat qs1) + {#t#} = mset (concat (m_Queues ts)) \<and> length qs1 = length (m_Queues ts)"
      by simp
    ultimately show ?thesis using taken by blast
  next
    case None
    note popNone = this
    show ?thesis
    proof (cases r2)
      case (Some t)
      with pop popNone steal Fetching
      have "w' = w\<lparr>s_Instance := Some (set_pc i (Holding t) (ts\<lparr>m_Queues := qs2\<rparr>))\<rparr>"
        by (simp add: w'_def WorkerThreadFunction_def)
      moreover from steal Some TryStealTask_Some [OF _ draws]
      have "mset (concat qs2) + {#t#} = mset (concat (m_Queues ts)) \<and> length qs2 = length (m_Queues ts)"
        by simp
      ultimately show ?thesis using taken by blast
    next
      case None
      with pop popNone steal Fetching
      have w': "w' = w\<lparr>s_Instance := Some (set_pc i AtLoop ts)\<rparr>"
        by (simp add: w'_def WorkerThreadFunction_def)
      from ts_held_set_pc [OF i, of AtLoop] Fetching
      have "mset (ts_held (set_pc i AtLoop ts)) = mset (ts_held ts)" by simp
      with inst w' have "moves w w'" by (simp add: moves_def queued_tasks_def held_tasks_def)
      moreover from inst w' have "same_shape w w'" by (simp add: same_shape_def set_pc_def)
      ultimately show ?thesis by simp
    qed
  qed
next
  case (Holding t)
  let ?ts' = "set_pc i (Accounting t) ts"
  from Holding have w': "w' = w\<lparr>invoked := (case Function t of None \<Rightarrow> invoked w
                         | Some f \<Rightarrow> invoked w @ [t]), s_Instance := Some ?ts'\<rparr>"
    by (simp add: w'_def WorkerThreadFunction_def)
  from ts_held_set_pc [OF i, of "Accounting t"] Holding
  have "mset (ts_held ?ts') = mset (ts_held ts)" by simp
  moreover from Holding i have "t \<in> set (ts_held ts)" by (intro held_task_mem [of i]) simp_all
  ultimately have "moves w w'" using inst w'
    by (cases "Function t") (simp_all add: moves_def queued_tasks_def held_tasks_def)
  moreover from inst w' have "same_shape w w'" by (simp add: same_shape_def set_pc_def)
  ultimately show ?thesis by simp
next
  case (Accounting t)
  let ?ts' = "set_pc i AtLoop (ts\<lparr>m_ActiveTasks := m_ActiveTasks ts - 1\<rparr>)"
  from Accounting have w': "w' = w\<lparr>counters := Decrement (Handle t) (counters w),
             finished := finished w @ [t], s_Instance := Some ?ts'\<rparr>"
    by (simp add: w'_def WorkerThreadFunction_def)
  have "i < length (m_Workers (ts\<lparr>m_ActiveTasks := m_ActiveTasks ts - 1\<rparr>))" using i by simp
  from ts_held_set_pc [OF this, of AtLoop] Accounting
  have "mset (ts_held ?ts') + {#t#} = mset (ts_held ts)" by (simp add: ts_held_def)
  moreover from Accounting i have "t \<in> set (ts_held ts)" by (intro held_task_mem [of i]) simp_all
  moreover have "ts_queued ?ts' = ts_queued ts" by (simp add: ts_queued_def set_pc_def)
  ultimately have "accounts t w w'" using inst w'
    by (simp add: accounts_def queued_tasks_def held_tasks_def)
  moreover from inst w' have "same_shape w w'" by (simp add: same_shape_def set_pc_def)
  ultimately show ?thesis by blast
next
  case Exited
  then have "w' = w" by (simp add: w'_def WorkerThreadFunction_def)
  with inst show ?thesis by (simp add: moves_def same_shape_def)
qed

lemma Schedule_initialized:
  assumes "s_Instance w = Some ts" and "targetQueue < length (m_Queues ts)"
  shows "Schedule function priority targetQueue w =
     (\<lparr>m_Counter = Some (length (counters w))\<rparr>,
      w\<lparr>s_Instance := Some (ts\<lparr>m_ActiveTasks := m_ActiveTasks ts + 1,
            m_Queues := PushTask \<lparr>Function = function, Priority = priority,
                                  Handle = \<lparr>m_Counter = Some (length (counters w))\<rparr>\<rparr>
                          targetQueue (m_Queues ts)\<rparr>),
        counters := counters w @ [1]\<rparr>)"
  using assms
  by (simp add: Schedule_def ScheduleInternal_def TaskHandle_new_def Increment_def Let_def)

lemma Schedule_uninitialized:
  assumes "s_Instance w = None"
  shows "Schedule function priority targetQueue w =
     (\<lparr>m_Counter = Some (length (counters w))\<rparr>, w\<lparr>counters := counters w @ [0]\<rparr>)"
  using assms by (simp add: Schedule_def TaskHandle_new_def)

lemma Schedule_submits:
  assumes "s_Instance w = Some ts" and "targetQueue < length (m_Queues ts)"
    and "len_ok w"
  shows "submits \<lparr>Function = function, Priority = priority,
                  Handle = fst (Schedule function priority targetQueue w)\<rparr>
           w (snd (Schedule function priority targetQueue w))
       \<and> len_ok (snd (Schedule function priority targetQueue w))"
proof -
  let ?t = "\<lparr>Function = function, Priority = priority,
             Handle = \<lparr>m_Counter = Some (length (counters w))\<rparr>\<rparr>"
  have "mset (concat (PushTask ?t targetQueue (m_Queues ts))) + mset (m_Queues ts ! targetQueue)
        = mset (concat (m_Queues ts)) + mset (insert_task (m_Queues ts ! targetQueue) ?t)"
    unfolding PushTask_def using assms(2) by (rule mset_concat_update)
  then have "mset (concat (PushTask ?t targetQueue (m_Queues ts)))
        = mset (concat (m_Queues ts)) + {#?t#}"
    by (simp add: mset_insert_task)
  with assms show ?thesis
    by (simp add: Schedule_initialized submits_def queued_tasks_def held_tasks_def
        ts_queued_def ts_held_def len_ok_def PushTask_def)
qed

lemma step_effect:
  assumes "step e w = Some w'" and "len_ok w"
  shows "len_ok w' \<and>
         (moves w w' \<or> (\<exists>t. accounts t w w') \<or> (\<exists>t. submits t w w') \<or> allocs w w' \<or> drops w w')"
proof (cases e)
  case (EvInitialize numThreads hw)
  show ?thesis
  proof (cases "s_Instance w")
    case None
    with EvInitialize assms(1)
    have w': "w' = w\<lparr>s_Instance := Some (InitializeInternal numThreads hw)\<rparr>"
      by (simp add: Initialize_def)
    have "concat (replicate k ([] :: 'a Task list)) = []" for k by (induction k) simp_all
    moreover have "concat (map held_task (replicate k (AtLoop :: 'a worker_pc))) = []" for k
      by (induction k) simp_all
    ultimately have "drops w w'" using None w'
      by (simp add: drops_def queued_tasks_def held_tasks_def ts_queued_def ts_held_def
          InitializeInternal_def Let_def)
    moreover have "len_ok w'" using w' by (simp add: len_ok_def InitializeInternal_def Let_def)
    ultimately show ?thesis by simp
  next
    case (Some ts)
    with EvInitialize assms(1) have "w' = w" by (simp add: Initialize_def)
    with assms(2) show ?thesis by (simp add: moves_def)
  qed
next
  case (EvSchedule func priority targetQueue)
  show ?thesis
  proof (cases "s_Instance w")
    case None
    with EvSchedule assms(1) have "w' = w\<lparr>counters := counters w @ [0]\<rparr>"
      by (simp add: Schedule_uninitialized)
    with None have "allocs w w'" "len_ok w'"
      by (simp_all add: allocs_def queued_tasks_def held_tasks_def len_ok_def)
    then show ?thesis by simp
  next
    case (Some ts)
    with EvSchedule assms(1) have tq: "targetQueue < length (m_Queues ts)"
      and w': "w' = snd (Schedule func priority targetQueue w)"
      by (auto split: if_splits)
    from Schedule_submits [OF Some tq assms(2), of func priority] w'
    show ?thesis by blast
  qed
next
  case (EvWorker i owns_lock draws)
  with assms(1) obtain ts where ts: "s_Instance w = Some ts" "i < length (m_Workers ts)"
    "list_all (\<lambda>d. fst d < length (m_Queues ts)) draws"
    "w' = WorkerThreadFunction i owns_lock draws ts w"
    by (auto split: option.splits if_splits)
  from ts(1) assms(2) have len: "length (m_Queues ts) = length (m_Workers ts)"
    by (simp add: len_ok_def)
  from worker_effect [OF ts(1,2,3) len ts(4)]
  have eff: "same_shape w w'" "moves w w' \<or> (\<exists>t. accounts t w w')" by simp_all
  from eff(1) ts(1) len have "len_ok w'" by (auto simp: same_shape_def len_ok_def)
  with eff(2) show ?thesis by blast
next
  case EvShutdownSignal
  show ?thesis
  proof (cases "s_Instance w")
    case None
    with EvShutdownSignal assms have "w' = w" by simp
    with assms(2) show ?thesis by (simp add: moves_def)
  next
    case (Some ts)
    with EvShutdownSignal assms(1)
    have "w' = w\<lparr>s_Instance := Some (ShutdownInternal_signal ts)\<rparr>" by simp
    with Some assms(2) have "moves w w'" "len_ok w'"
      by (simp_all add: moves_def queued_tasks_def held_tasks_def ts_queued_def ts_held_def
          ShutdownInternal_signal_def len_ok_def)
    then show ?thesis by simp
  qed
next
  case EvShutdownRelease
  with assms(1) obtain ts where ts: "s_Instance w = Some ts" "workers_joined ts"
    "w' = w\<lparr>s_Instance := None\<rparr>"
    by (auto simp: Shutdown_delete_def split: option.splits if_splits)
  have "concat (map held_task ws) = []" if "list_all (\<lambda>pc. pc = Exited) ws" for ws :: "'a worker_pc list"
    using that by (induction ws) auto
  with ts(2) have "ts_held ts = []" by (simp add: workers_joined_def ts_held_def)
  with ts have "drops w w'" "len_ok w'"
    by (simp_all add: drops_def queued_tasks_def held_tasks_def len_ok_def)
  then show ?thesis by simp
qed

section \<open>The handle invariant\<close>

lemma unique_handle_other:
  assumes "\<forall>h. count (image_mset Handle (M + {#t#})) h \<le> 1" and "t' \<in># M"
  shows "Handle t' \<noteq> Handle t"
proof
  assume eq: "Handle t' = Handle t"
  from assms(2) have "Handle t' \<in># image_mset Handle M" by simp
  then have "1 \<le> count (image_mset Handle M) (Handle t)" unfolding eq by simp
  then have "2 \<le> count (image_mset Handle (M + {#t#})) (Handle t)" by simp
  with assms(1) show False by (metis numeral_le_one_iff order_trans semiring_norm(69))
qed

lemma handle_inv_moves:
  assumes "handle_inv w" and "moves w w'"
  shows "handle_inv w'"
proof -
  from assms(2) have p: "pending w' = pending w" by (simp add: moves_def pending_def)
  from assms(2) have c: "counters w' = counters w" "finished w' = finished w"
    by (simp_all add: moves_def)
  from assms(2) have "mset (held_tasks w) \<subseteq># mset (held_tasks w')"
    by (simp add: moves_def)
  then have "set_mset (mset (held_tasks w)) \<subseteq> set_mset (mset (held_tasks w'))"
    by (rule set_mset_mono)
  then have sub: "set (held_tasks w) \<subseteq> set (held_tasks w')" by simp
  from assms(2) have "set (invoked w') \<subseteq> set (invoked w) \<union> set (held_tasks w)"
    by (auto simp: moves_def)
  with assms(1) sub have "set (invoked w') \<subseteq> set (held_tasks w') \<union> set (finished w')"
    unfolding c handle_inv_def by blast
  with assms(1) show ?thesis unfolding handle_inv_def p c by simp
qed

lemma handle_inv_allocs:
  assumes "handle_inv w" and "allocs w w'"
  shows "handle_inv w'"
proof -
  from assms(2) have p: "pending w' = pending w" by (simp add: allocs_def pending_def)
  from assms(2) have c: "counters w' = counters w @ [0]" "finished w' = finished w"
    "invoked w' = invoked w" "held_tasks w' = held_tasks w"
    by (simp_all add: allocs_def)
  have nth: "(counters w @ [0]) ! a = counters w ! a" if "a < length (counters w)" for a
    using that by (simp add: nth_append)
  have "counters w' ! a = 0 \<or> counters w' ! a = 1" if "a < length (counters w')" for a
    using that assms(1) unfolding c handle_inv_def by (cases "a < length (counters w)") (auto simp: nth_append)
  moreover have "\<exists>a. m_Counter (Handle t) = Some a \<and> a < length (counters w') \<and> counters w' ! a = 1"
    if "t \<in># pending w'" for t
  proof -
    from that assms(1) obtain a where "m_Counter (Handle t) = Some a" "a < length (counters w)"
      "counters w ! a = 1" unfolding p handle_inv_def by blast
    then show ?thesis unfolding c by (auto simp: nth)
  qed
  moreover have "\<exists>a. m_Counter (Handle t) = Some a \<and> a < length (counters w') \<and> counters w' ! a = 0"
    if "t \<in> set (finished w')" for t
  proof -
    from that assms(1) obtain a where "m_Counter (Handle t) = Some a" "a < length (counters w)"
      "counters w ! a = 0" unfolding c handle_inv_def by blast
    then show ?thesis unfolding c by (auto simp: nth)
  qed
  moreover from assms(1) have "\<forall>h. count (image_mset Handle (pending w' + mset (finished w'))) h \<le> 1"
    unfolding p c handle_inv_def by simp
  moreover from assms(1) have "set (invoked w') \<subseteq> set (held_tasks w') \<union> set (finished w')"
    unfolding c handle_inv_def by simp
  ultimately show ?thesis unfolding handle_inv_def by blast
qed

lemma handle_inv_drops:
  assumes "handle_inv w" and "drops w w'"
  shows "handle_inv w'"
proof -
  from assms(2) have p: "pending w' = {#}" by (simp add: drops_def pending_def)
  from assms(2) have c: "counters w' = counters w" "finished w' = finished w"
    "invoked w' = invoked w" "held_tasks w' = []" "held_tasks w = []"
    by (simp_all add: drops_def)
  have "count (image_mset Handle (pending w' + mset (finished w'))) h \<le> 1" for h
  proof -
    have "count (image_mset Handle (mset (finished w))) h
          \<le> count (image_mset Handle (pending w + mset (finished w))) h" by simp
    also from assms(1) have "\<dots> \<le> 1" unfolding handle_inv_def by blast
    finally show ?thesis unfolding p c by simp
  qed
  then have "\<forall>h. count (image_mset Handle (pending w' + mset (finished w'))) h \<le> 1" ..
  moreover from assms(1) have "set (invoked w') \<subseteq> set (held_tasks w') \<union> set (finished w')"
    unfolding c handle_inv_def by simp
  ultimately show ?thesis using assms(1) unfolding handle_inv_def p c by simp
qed

lemma handle_inv_submits:
  assumes "handle_inv w" and "submits t w w'"
  shows "handle_inv w'"
proof -
  from assms(2) have p: "pending w' = pending w + {#t#}" by (simp add: submits_def pending_def)
  from assms(2) have c: "counters w' = counters w @ [1]" "finished w' = finished w"
    "invoked w' = invoked w" "held_tasks w' = held_tasks w"
    and t: "m_Counter (Handle t) = Some (length (counters w))"
    by (simp_all add: submits_def)
  have nth: "(counters w @ [1]) ! a = counters w ! a" if "a < length (counters w)" for a
    using that by (simp add: nth_append)
  have old: "\<exists>a. m_Counter (Handle x) = Some a \<and> a < length (counters w)"
    if "x \<in># pending w + mset (finished w)" for x
    using that assms(1) unfolding handle_inv_def by auto
  have fresh: "Handle t \<notin># image_mset Handle (pending w + mset (finished w))"
  proof
    assume "Handle t \<in># image_mset Handle (pending w + mset (finished w))"
    then obtain x where "x \<in># pending w + mset (finished w)" "Handle x = Handle t"
      by (auto simp: image_iff) metis+
    with old [of x] t show False by auto
  qed
  have "count (image_mset Handle (pending w' + mset (finished w'))) h \<le> 1" for h
  proof (cases "h = Handle t")
    case True
    from fresh have "count (image_mset Handle (pending w + mset (finished w))) (Handle t) = 0"
      by (simp only: not_in_iff)
    with True show ?thesis unfolding p c by simp
  next
    case False
    with assms(1) show ?thesis unfolding p c handle_inv_def by simp
  qed
  moreover have "counters w' ! a = 0 \<or> counters w' ! a = 1" if "a < length (counters w')" for a
    using that assms(1) unfolding c handle_inv_def by (cases "a < length (counters w)") (auto simp: nth_append)
  moreover have "\<exists>a. m_Counter (Handle x) = Some a \<and> a < length (counters w') \<and> counters w' ! a = 1"
    if "x \<in># pending w'" for x
  proof (cases "x = t")
    case True
    with t show ?thesis unfolding c by simp
  next
    case False
    with that have "x \<in># pending w" unfolding p by simp
    with assms(1) obtain a where "m_Counter (Handle x) = Some a" "a < length (counters w)"
      "counters w ! a = 1" unfolding handle_inv_def by blast
    then show ?thesis unfolding c by (auto simp: nth)
  qed
  moreover have "\<exists>a. m_Counter (Handle x) = Some a \<and> a < length (counters w') \<and> counters w' ! a = 0"
    if "x \<in> set (finished w')" for x
  proof -
    from that assms(1) obtain a where "m_Counter (Handle x) = Some a" "a < length (counters w)"
      "counters w ! a = 0" unfolding c handle_inv_def by blast
    then show ?thesis unfolding c by (auto simp: nth)
  qed
  moreover from assms(1) have "set (invoked w') \<subseteq> set (held_tasks w') \<union> set (finished w')"
    unfolding c handle_inv_def by simp
  ultimately show ?thesis unfolding handle_inv_def by blast
qed

lemma handle_inv_accounts:
  assumes "handle_inv w" and "accounts t w w'"
  shows "handle_inv w'"
proof -
  from assms(2) have h: "mset (held_tasks w) = mset (held_tasks w') + {#t#}"
    and q: "queued_tasks w' = queued_tasks w"
    and c: "counters w' = Decrement (Handle t) (counters w)"
      "finished w' = finished w @ [t]" "invoked w' = invoked w"
    by (simp_all add: accounts_def)
  from h q have p: "pending w = pending w' + {#t#}" by (simp add: pending_def)
  then have tp: "t \<in># pending w" by simp
  with assms(1) obtain a where a: "m_Counter (Handle t) = Some a" "a < length (counters w)"
    "counters w ! a = 1" unfolding handle_inv_def by blast
  then have cs: "counters w' = (counters w)[a := 0]" unfolding c by (simp add: Decrement_def)
  have all: "pending w' + mset (finished w') = pending w + mset (finished w)"
    unfolding p c by simp
  from assms(1) have uniq: "\<forall>h. count (image_mset Handle ((pending w' + mset (finished w)) + {#t#})) h \<le> 1"
    unfolding handle_inv_def p by (simp add: ac_simps)
  have other: "m_Counter (Handle x) \<noteq> Some a" if "x \<in># pending w' + mset (finished w)" for x
  proof -
    from unique_handle_other [OF uniq that] have "Handle x \<noteq> Handle t" .
    with a(1) show ?thesis by (cases "Handle x", cases "Handle t") auto
  qed
  have "\<exists>b. m_Counter (Handle x) = Some b \<and> b < length (counters w') \<and> counters w' ! b = 1"
    if "x \<in># pending w'" for x
  proof -
    from that have "x \<in># pending w" unfolding p by simp
    with assms(1) obtain b where b: "m_Counter (Handle x) = Some b" "b < length (counters w)"
      "counters w ! b = 1" unfolding handle_inv_def by blast
    from that other [of x] b(1) have "b \<noteq> a" by auto
    with b show ?thesis unfolding cs by simp
  qed
  moreover have "\<exists>b. m_Counter (Handle x) = Some b \<and> b < length (counters w') \<and> counters w' ! b = 0"
    if "x \<in> set (finished w')" for x
  proof (cases "x \<in> set (finished w)")
    case True
    with assms(1) obtain b where b: "m_Counter (Handle x) = Some b" "b < length (counters w)"
      "counters w ! b = 0" unfolding handle_inv_def by blast
    then show ?thesis unfolding cs by (cases "b = a") auto
  next
    case False
    with that have "x = t" unfolding c by simp
    with a show ?thesis unfolding cs by simp
  qed
  moreover have "counters w' ! b = 0 \<or> counters w' ! b = 1" if "b < length (counters w')" for b
    using that assms(1) unfolding cs handle_inv_def by (cases "b = a") auto
  moreover from assms(1) have "\<forall>h. count (image_mset Handle (pending w' + mset (finished w'))) h \<le> 1"
    unfolding all handle_inv_def by simp
  moreover have "set (invoked w') \<subseteq> set (held_tasks w') \<union> set (finished w')"
  proof
    fix x assume "x \<in> set (invoked w')"
    with assms(1) have "x \<in> set (held_tasks w) \<or> x \<in> set (finished w)"
      unfolding c handle_inv_def by auto
    moreover have "set (held_tasks w) = insert t (set (held_tasks w'))"
      using h by (metis set_mset_mset set_mset_add_mset_insert union_mset_add_mset_right add.right_neutral)
    ultimately show "x \<in> set (held_tasks w') \<union> set (finished w')" unfolding c by auto
  qed
  ultimately show ?thesis unfolding handle_inv_def by blast
qed

lemma handle_inv_step:
  assumes "step e w = Some w'" and "len_ok w" and "handle_inv w"
  shows "len_ok w' \<and> handle_inv w'"
  using step_effect [OF assms(1,2)] assms(3)
  by (auto intro: handle_inv_moves handle_inv_accounts handle_inv_submits handle_inv_allocs
      handle_inv_drops)

lemma handle_inv_run:
  "run evs w = Some w' \<Longrightarrow> len_ok w \<Longrightarrow> handle_inv w \<Longrightarrow> len_ok w' \<and> handle_inv w'"
proof (induction evs arbitrary: w)
  case Nil
  then show ?case by simp
next
  case (Cons e evs)
  from Cons.prems(1) obtain w1 where s: "step e w = Some w1" and r: "run evs w1 = Some w'"
    by (auto split: option.splits)
  from handle_inv_step [OF s Cons.prems(2,3)] have "len_ok w1" "handle_inv w1" by simp_all
  with r show ?case by (rule Cons.IH)
qed

lemma handle_inv_init: "len_ok init_world \<and> handle_inv init_world"
  by (simp add: len_ok_def handle_inv_def init_world_def pending_def queued_tasks_def
      held_tasks_def)

lemma reachable_inv:
  "run evs init_world = Some w \<Longrightarrow> len_ok w \<and> handle_inv w"
  using handle_inv_run [of evs init_world w] handle_inv_init by blast

lemma pending_not_finished:
  assumes "handle_inv w" and "t \<in># pending w" and "x \<in> set (finished w)"
  shows "Handle x \<noteq> Handle t"
proof -
  from assms(2) have "pending w + mset (finished w) = (pending w - {#t#} + mset (finished w)) + {#t#}"
    by simp
  with assms(1) have "\<forall>h. count (image_mset Handle ((pending w - {#t#} + mset (finished w)) + {#t#})) h \<le> 1"
    unfolding handle_inv_def by metis
  moreover from assms(3) have "x \<in># pending w - {#t#} + mset (finished w)" by simp
  ultimately show ?thesis by (rule unique_handle_other)
qed

lemma Decrement_other:
  assumes "Handle t \<noteq> h" and "m_Counter h = Some a"
  shows "length (Decrement (Handle t) cs) = length cs \<and> Decrement (Handle t) cs ! a = cs ! a"
proof (cases "m_Counter (Handle t)")
  case None
  then show ?thesis by (simp add: Decrement_def)
next
  case (Some b)
  with assms have "b \<noteq> a" by (cases h, cases "Handle t") auto
  with Some show ?thesis by (simp add: Decrement_def)
qed

lemma held_in_pending: "t \<in> set (held_tasks w) \<Longrightarrow> t \<in># pending w"
  by (simp add: pending_def)

lemma untouched_step:
  assumes "step e w = Some w'" and "len_ok w" and "untouched h c w"
  shows "untouched h c w'"
proof -
  from assms(3) obtain a where a: "m_Counter h = Some a" "a < length (counters w)"
    "counters w ! a = c" unfolding untouched_def by blast
  from assms(3) have ab: "\<And>t. t \<in># pending w \<or> t \<in> set (finished w) \<or> t \<in> set (invoked w)
      \<Longrightarrow> Handle t \<noteq> h" unfolding untouched_def by blast
  from step_effect [OF assms(1,2)]
  consider "moves w w'" | t where "accounts t w w'" | t where "submits t w w'"
    | "allocs w w'" | "drops w w'" by blast
  then show ?thesis
  proof cases
    case 1
    then have p: "pending w' = pending w" "counters w' = counters w" "finished w' = finished w"
      by (simp_all add: moves_def pending_def)
    from 1 have "set (invoked w') \<subseteq> set (invoked w) \<union> set (held_tasks w)"
      by (auto simp: moves_def)
    then have "\<And>t. t \<in> set (invoked w') \<Longrightarrow> Handle t \<noteq> h"
      using ab held_in_pending by blast
    with a ab show ?thesis unfolding untouched_def p by blast
  next
    case 2
    then have h: "mset (held_tasks w) = mset (held_tasks w') + {#t#}"
      and q: "queued_tasks w' = queued_tasks w"
      and c: "counters w' = Decrement (Handle t) (counters w)"
        "finished w' = finished w @ [t]" "invoked w' = invoked w"
      and th: "t \<in> set (held_tasks w)"
      by (simp_all add: accounts_def)
    from h q have p: "pending w = pending w' + {#t#}" by (simp add: pending_def)
    from th ab held_in_pending have "Handle t \<noteq> h" by blast
    from Decrement_other [OF this a(1), of "counters w"] a
    have "a < length (counters w')" "counters w' ! a = c" unfolding c by simp_all
    moreover have "Handle x \<noteq> h"
      if "x \<in># pending w' \<or> x \<in> set (finished w') \<or> x \<in> set (invoked w')" for x
    proof -
      from that have "x \<in># pending w \<or> x \<in> set (finished w) \<or> x \<in> set (invoked w) \<or> x = t"
        unfolding p c by auto
      with ab \<open>Handle t \<noteq> h\<close> show ?thesis by blast
    qed
    ultimately show ?thesis using a(1) unfolding untouched_def by blast
  next
    case 3
    then have p: "pending w' = pending w + {#t#}" by (simp add: submits_def pending_def)
    from 3 have c: "counters w' = counters w @ [1]" "finished w' = finished w"
      "invoked w' = invoked w" and t: "m_Counter (Handle t) = Some (length (counters w))"
      by (simp_all add: submits_def)
    from t a have "Handle t \<noteq> h" by auto
    moreover from a have "a < length (counters w')" "counters w' ! a = c"
      unfolding c by (simp_all add: nth_append)
    ultimately show ?thesis using a(1) ab unfolding untouched_def p c by auto
  next
    case 4
    then have p: "pending w' = pending w" by (simp add: allocs_def pending_def)
    from 4 have c: "counters w' = counters w @ [0]" "finished w' = finished w"
      "invoked w' = invoked w" by (simp_all add: allocs_def)
    from a have "a < length (counters w')" "counters w' ! a = c"
      unfolding c by (simp_all add: nth_append)
    then show ?thesis using a(1) ab unfolding untouched_def p c by auto
  next
    case 5
    then have p: "pending w' = {#}" by (simp add: drops_def pending_def)
    from 5 have c: "counters w' = counters w" "finished w' = finished w"
      "invoked w' = invoked w" by (simp_all add: drops_def)
    from a ab show ?thesis unfolding untouched_def p c by auto
  qed
qed

lemma untouched_run:
  "run evs w = Some w' \<Longrightarrow> len_ok w \<Longrightarrow> handle_inv w \<Longrightarrow> untouched h c w \<Longrightarrow> untouched h c w'"
proof (induction evs arbitrary: w)
  case Nil
  then show ?case by simp
next
  case (Cons e evs)
  from Cons.prems(1) obtain w1 where s: "step e w = Some w1" and r: "run evs w1 = Some w'"
    by (auto split: option.splits)
  from handle_inv_step [OF s Cons.prems(2,3)] have "len_ok w1" "handle_inv w1" by simp_all
  moreover from s Cons.prems(2,4) have "untouched h c w1" by (rule untouched_step)
  ultimately show ?case using r Cons.IH by blast
qed

lemma tracked_step:
  assumes "step e w = Some w'" and "len_ok w" and "handle_inv w" and "tracked t w"
  shows "tracked t w'"
proof -
  from assms(4) obtain a where a: "m_Counter (Handle t) = Some a" "a < length (counters w)"
    "counters w ! a = 0 \<longrightarrow> t \<in> set (finished w)" unfolding tracked_def by blast
  from assms(4) have only: "\<And>x. x \<in># pending w \<Longrightarrow> Handle x = Handle t \<Longrightarrow> x = t"
    unfolding tracked_def by blast
  from step_effect [OF assms(1,2)]
  consider "moves w w'" | x where "accounts x w w'" | x where "submits x w w'"
    | "allocs w w'" | "drops w w'" by blast
  then show ?thesis
  proof cases
    case 1
    then have p: "pending w' = pending w" "counters w' = counters w" "finished w' = finished w"
      by (simp_all add: moves_def pending_def)
    from assms(4) show ?thesis unfolding tracked_def p .
  next
    case 2
    then have h: "mset (held_tasks w) = mset (held_tasks w') + {#x#}"
      and q: "queued_tasks w' = queued_tasks w"
      and c: "counters w' = Decrement (Handle x) (counters w)"
        "finished w' = finished w @ [x]"
      and xh: "x \<in> set (held_tasks w)"
      by (simp_all add: accounts_def)
    from h q have p: "pending w = pending w' + {#x#}" by (simp add: pending_def)
    from xh have xp: "x \<in># pending w" by (rule held_in_pending)
    have only': "y = t" if "y \<in># pending w'" "Handle y = Handle t" for y
      using that only [of y] unfolding p by simp
    have "a < length (counters w') \<and> (counters w' ! a = 0 \<longrightarrow> t \<in> set (finished w'))"
    proof (cases "Handle x = Handle t")
      case True
      with xp only have "x = t" by simp
      moreover from a(2) have "a < length (counters w')" unfolding c
        by (simp add: Decrement_def split: option.splits)
      ultimately show ?thesis unfolding c by simp
    next
      case False
      from Decrement_other [OF False a(1), of "counters w"] a(2,3)
      show ?thesis unfolding c by simp
    qed
    with a(1) only' show ?thesis unfolding tracked_def by blast
  next
    case 3
    then have p: "pending w' = pending w + {#x#}" by (simp add: submits_def pending_def)
    from 3 have c: "counters w' = counters w @ [1]" "finished w' = finished w"
      and x: "m_Counter (Handle x) = Some (length (counters w))"
      by (simp_all add: submits_def)
    from x a have "Handle x \<noteq> Handle t" by auto
    with only have "y = t" if "y \<in># pending w'" "Handle y = Handle t" for y
      using that unfolding p by auto
    moreover from a have "a < length (counters w') \<and> (counters w' ! a = 0 \<longrightarrow> t \<in> set (finished w'))"
      unfolding c by (simp add: nth_append)
    ultimately show ?thesis using a(1) unfolding tracked_def by blast
  next
    case 4
    then have p: "pending w' = pending w" by (simp add: allocs_def pending_def)
    from 4 have c: "counters w' = counters w @ [0]" "finished w' = finished w"
      by (simp_all add: allocs_def)
    from a have "a < length (counters w') \<and> (counters w' ! a = 0 \<longrightarrow> t \<in> set (finished w'))"
      unfolding c by (simp add: nth_append)
    with a(1) only show ?thesis unfolding tracked_def p by blast
  next
    case 5
    then have p: "pending w' = {#}" by (simp add: drops_def pending_def)
    from 5 have c: "counters w' = counters w" "finished w' = finished w"
      by (simp_all add: drops_def)
    from a show ?thesis unfolding tracked_def p c by auto
  qed
qed

lemma tracked_run:
  "run evs w = Some w' \<Longrightarrow> len_ok w \<Longrightarrow> handle_inv w \<Longrightarrow> tracked t w \<Longrightarrow>
     handle_inv w' \<and> tracked t w'"
proof (induction evs arbitrary: w)
  case Nil
  then show ?case by simp
next
  case (Cons e evs)
  from Cons.prems(1) obtain wm where s: "step e w = Some wm" and r: "run evs wm = Some w'"
    by (auto split: option.splits)
  from handle_inv_step [OF s Cons.prems(2,3)] have "len_ok wm" "handle_inv wm" by simp_all
  moreover from s Cons.prems(2,3,4) have "tracked t wm" by (rule tracked_step)
  ultimately show ?case using r Cons.IH by blast
qed

lemma Wait_zero_returns:
  assumes "m_Counter h = Some a" and "cs ! a = 0"
  shows "Wait h (\<lambda>_. cs) k = Some k"
  using assms by (subst Wait.simps) simp

lemma ScheduleBatch_uninitialized:
  "s_Instance w = None \<Longrightarrow>
     ScheduleBatch funcs priority targets w =
       (map (\<lambda>a. \<lparr>m_Counter = Some a\<rparr>)
            [length (counters w)..<length (counters w) + length funcs],
        w\<lparr>counters := counters w @ replicate (length funcs) 0\<rparr>)"
proof (induction funcs arbitrary: w targets)
  case Nil
  then show ?case by simp
next
  case (Cons func funcs)
  let ?wm = "w\<lparr>counters := counters w @ [0]\<rparr>"
  from Cons.prems have s: "Schedule func priority (hd targets) w
      = (\<lparr>m_Counter = Some (length (counters w))\<rparr>, ?wm)"
    by (rule Schedule_uninitialized)
  from Cons.prems have "s_Instance ?wm = None" by simp
  from Cons.IH [OF this, of "tl targets"]
  have r: "ScheduleBatch funcs priority (tl targets) ?wm =
       (map (\<lambda>a. \<lparr>m_Counter = Some a\<rparr>)
            [Suc (length (counters w))..<Suc (length (counters w)) + length funcs],
        w\<lparr>counters := counters w @ replicate (Suc (length funcs)) 0\<rparr>)"
    by (simp add: replicate_app_Cons_same)
  have "[length (counters w)..<length (counters w) + length (func # funcs)]
        = length (counters w) # [Suc (length (counters w))..<Suc (length (counters w)) + length funcs]"
    by (simp add: upt_rec)
  with s r show ?case by simp
qed

section \<open>Runs of the scheduler\<close>

text \<open>The definitions to unfold when a run is evaluated on concrete events.\<close>

lemmas eval_defs = init_world_def Initialize_def InitializeInternal_def Schedule_def
  ScheduleInternal_def TaskHandle_new_def Increment_def Decrement_def PushTask_def
  TryPopTask_def TryStealTask_def WorkerThreadFunction_def set_pc_def
  ShutdownInternal_signal_def workers_joined_def ShutdownInternal_release_def
  Shutdown_delete_def Let_def

text \<open>
  C9. Without a scheduler (in any state reached from the initial one with
  \<open>s_Instance\<close> null), \<^verbatim>\<open>Schedule\<close> only allocates a fresh counter at 0 and returns its
  handle: \<^verbatim>\<open>IsComplete\<close> is true and \<^verbatim>\<open>Wait\<close> returns at its first poll, at once and
  after any later run; no task carrying the handle is ever queued, held, invoked or
  finished. \<^verbatim>\<open>ScheduleBatch\<close> returns one such handle per callable, all distinct.
\<close>

theorem Schedule_without_scheduler:
  assumes "run evsa init_world = Some wa" and "s_Instance wa = None"
    and "Schedule func priority targetQueue wa = (handle, wb)"
    and "run evs wb = Some w"
  shows "m_Counter handle = Some (length (counters wa))
       \<and> wb = wa\<lparr>counters := counters wa @ [0]\<rparr>
       \<and> IsComplete handle (counters wb) \<and> Wait handle (\<lambda>_. counters wb) k = Some k
       \<and> IsComplete handle (counters w) \<and> Wait handle (\<lambda>_. counters w) k = Some k
       \<and> (\<forall>t. t \<in> set (queued_tasks w) \<or> t \<in> set (held_tasks w)
                \<or> t \<in> set (invoked w) \<or> t \<in> set (finished w) \<longrightarrow> Handle t \<noteq> handle)
       \<and> (\<forall>funcs targets handles wc.
             ScheduleBatch funcs priority targets wa = (handles, wc) \<longrightarrow>
               length handles = length funcs \<and> distinct handles
               \<and> wc = wa\<lparr>counters := counters wa @ replicate (length funcs) 0\<rparr>
               \<and> (\<forall>h\<in>set handles. IsComplete h (counters wc)
                      \<and> Wait h (\<lambda>_. counters wc) k = Some k))"
proof -
  from reachable_inv [OF assms(1)] have inva: "len_ok wa" "handle_inv wa" by simp_all
  from assms(2,3) have h: "handle = \<lparr>m_Counter = Some (length (counters wa))\<rparr>"
    and wb: "wb = wa\<lparr>counters := counters wa @ [0]\<rparr>"
    by (simp_all add: Schedule_uninitialized)
  from assms(2,3) have s: "step (EvSchedule func priority targetQueue) wa = Some wb" by simp
  from handle_inv_step [OF s inva] have invb: "len_ok wb" "handle_inv wb" by simp_all
  from assms(2) wb have pb: "pending wb = {#}" "held_tasks wb = []"
    by (simp_all add: pending_def queued_tasks_def held_tasks_def)
  have old: "Handle t \<noteq> handle" if "t \<in> set (finished wb)" for t
  proof -
    from that wb have "t \<in> set (finished wa)" by simp
    with inva(2) obtain b where "m_Counter (Handle t) = Some b" "b < length (counters wa)"
      unfolding handle_inv_def by blast
    with h show ?thesis by auto
  qed
  from invb(2) pb have "set (invoked wb) \<subseteq> set (finished wb)" unfolding handle_inv_def by simp
  with old have "Handle t \<noteq> handle" if "t \<in> set (invoked wb)" for t using that by blast
  with old h wb have "untouched handle 0 wb" unfolding untouched_def pb by auto
  with assms(4) invb have u: "untouched handle 0 w" by (rule untouched_run)
  then obtain a where a: "m_Counter handle = Some a" "counters w ! a = 0"
    unfolding untouched_def by blast
  from u have absent: "\<forall>t. t \<in> set (queued_tasks w) \<or> t \<in> set (held_tasks w)
                \<or> t \<in> set (invoked w) \<or> t \<in> set (finished w) \<longrightarrow> Handle t \<noteq> handle"
    unfolding untouched_def pending_def by auto
  from a have later: "IsComplete handle (counters w)" "Wait handle (\<lambda>_. counters w) k = Some k"
    by (simp_all add: IsComplete_def Wait_zero_returns)
  from h wb have now: "IsComplete handle (counters wb)" "Wait handle (\<lambda>_. counters wb) k = Some k"
    by (simp_all add: IsComplete_def Wait_zero_returns)
  have batch: "length handles = length funcs \<and> distinct handles
               \<and> wc = wa\<lparr>counters := counters wa @ replicate (length funcs) 0\<rparr>
               \<and> (\<forall>h\<in>set handles. IsComplete h (counters wc)
                      \<and> Wait h (\<lambda>_. counters wc) k = Some k)"
    if "ScheduleBatch funcs priority targets wa = (handles, wc)" for funcs targets handles wc
  proof -
    from that ScheduleBatch_uninitialized [OF assms(2), of funcs priority targets]
    have hs: "handles = map (\<lambda>a. \<lparr>m_Counter = Some a\<rparr>)
            [length (counters wa)..<length (counters wa) + length funcs]"
      and wc: "wc = wa\<lparr>counters := counters wa @ replicate (length funcs) 0\<rparr>" by simp_all
    have "distinct handles" unfolding hs by (simp add: distinct_map inj_on_def)
    moreover have "IsComplete x (counters wc) \<and> Wait x (\<lambda>_. counters wc) k = Some k"
      if "x \<in> set handles" for x
    proof -
      from that obtain b where b: "x = \<lparr>m_Counter = Some b\<rparr>" "length (counters wa) \<le> b"
        "b < length (counters wa) + length funcs" unfolding hs by auto
      then have "counters wc ! b = 0" unfolding wc by (simp add: nth_append)
      with b(1) show ?thesis by (simp add: IsComplete_def Wait_zero_returns)
    qed
    ultimately show ?thesis using hs wc by simp
  qed
  from h wb now later absent batch show ?thesis by simp
qed

theorem Schedule_without_scheduler_witness:
  "Schedule (Some (7 :: nat)) High 0 init_world
     = (\<lparr>m_Counter = Some 0\<rparr>, init_world\<lparr>counters := [0]\<rparr>)
   \<and> IsComplete \<lparr>m_Counter = Some 0\<rparr> [0]
   \<and> ScheduleBatch [Some (1 :: nat), Some 2] Normal [] init_world
     = ([\<lparr>m_Counter = Some 0\<rparr>, \<lparr>m_Counter = Some 1\<rparr>], init_world\<lparr>counters := [0, 0]\<rparr>)
   \<and> invoked (the (run [EvInitialize 1 4, EvSchedule (Some 8) Low 0,
        EvWorker 0 True [], EvWorker 0 True [], EvWorker 0 True [], EvWorker 0 True []]
        (init_world\<lparr>counters := [0]\<rparr>)))
     = [\<lparr>Function = Some (8 :: nat), Priority = Low, Handle = \<lparr>m_Counter = Some 1\<rparr>\<rparr>]"
  using Schedule_without_scheduler [where
      evsa = "[]" and wa = "init_world :: nat world" and func = "Some 7" and priority = High
      and targetQueue = 0 and handle = "\<lparr>m_Counter = Some 0\<rparr>"
      and wb = "init_world\<lparr>counters := [0]\<rparr>"
      and evs = "[EvInitialize 1 4, EvSchedule (Some 8) Low 0,
        EvWorker 0 True [], EvWorker 0 True [], EvWorker 0 True [], EvWorker 0 True []]"
      and w = "the (run [EvInitialize 1 4, EvSchedule (Some 8) Low 0,
        EvWorker 0 True [], EvWorker 0 True [], EvWorker 0 True [], EvWorker 0 True []]
        (init_world\<lparr>counters := [0]\<rparr>))"
      and k = 0]
  by (simp add: eval_defs IsComplete_def)

section \<open>Completion and invocation\<close>

lemma ran_invI:
  assumes "\<And>t. t \<in> set (finished w) \<Longrightarrow> Function t = None \<or> t \<in> set (invoked w)"
    and "\<And>t. t \<in> set (accounting_tasks w) \<Longrightarrow> Function t = None \<or> t \<in> set (invoked w)"
  shows "ran_inv w"
  unfolding ran_inv_def using assms by blast

lemma ran_invD:
  assumes "ran_inv w"
  shows "t \<in> set (finished w) \<Longrightarrow> Function t = None \<or> t \<in> set (invoked w)"
    and "t \<in> set (accounting_tasks w) \<Longrightarrow> Function t = None \<or> t \<in> set (invoked w)"
  using assms unfolding ran_inv_def by blast+

lemma set_concat_map_update:
  "set (concat (map f (xs[i := v]))) \<subseteq> set (concat (map f xs)) \<union> set (f v)"
proof
  fix x assume "x \<in> set (concat (map f (xs[i := v])))"
  then obtain y where y: "y \<in> set (xs[i := v])" "x \<in> set (f y)" by auto
  from y(1) set_update_subset_insert [of xs i v] have "y = v \<or> y \<in> set xs" by auto
  with y(2) show "x \<in> set (concat (map f xs)) \<union> set (f v)" by auto
qed

lemma accounting_set_pc:
  "set (concat (map accounting_task (m_Workers (set_pc i pc ts))))
     \<subseteq> set (concat (map accounting_task (m_Workers ts))) \<union> set (accounting_task pc)"
proof -
  have "m_Workers (set_pc i pc ts) = (m_Workers ts)[i := pc]" by (simp add: set_pc_def)
  then show ?thesis by (simp only: set_concat_map_update)
qed

lemma accounting_task_mem:
  "i < length ws \<Longrightarrow> ws ! i = Accounting t \<Longrightarrow> t \<in> set (concat (map accounting_task ws))"
  by (force simp: in_set_conv_nth)

lemma ran_inv_worker:
  assumes inst: "s_Instance w = Some ts" and i: "i < length (m_Workers ts)"
    and inv: "ran_inv w"
  shows "ran_inv (WorkerThreadFunction i owns_lock draws ts w)"
proof -
  let ?w' = "WorkerThreadFunction i owns_lock draws ts w"
  let ?acc = "\<lambda>ts. set (concat (map accounting_task (m_Workers ts)))"
  from inst have acc: "set (accounting_tasks w) = ?acc ts" by (simp add: accounting_tasks_def)
  note old = ran_invD [OF inv]
  have keep: "ran_inv (w\<lparr>s_Instance := Some (set_pc i pc ts')\<rparr>)"
    if "accounting_task pc = []" "m_Workers ts' = m_Workers ts" for pc ts'
  proof (rule ran_invI)
    fix t assume "t \<in> set (finished (w\<lparr>s_Instance := Some (set_pc i pc ts')\<rparr>))"
    then have "t \<in> set (finished w)" by simp
    then show "Function t = None \<or> t \<in> set (invoked (w\<lparr>s_Instance := Some (set_pc i pc ts')\<rparr>))"
      using old(1) by simp
  next
    fix t assume "t \<in> set (accounting_tasks (w\<lparr>s_Instance := Some (set_pc i pc ts')\<rparr>))"
    then have "t \<in> ?acc (set_pc i pc ts')" by (simp add: accounting_tasks_def)
    with accounting_set_pc [of i pc ts'] that have "t \<in> ?acc ts" by auto
    then have "t \<in> set (accounting_tasks w)" unfolding acc .
    then show "Function t = None \<or> t \<in> set (invoked (w\<lparr>s_Instance := Some (set_pc i pc ts')\<rparr>))"
      using old(2) by simp
  qed
  show ?thesis
  proof (cases "m_Workers ts ! i")
    case AtLoop
    then have "?w' = w\<lparr>s_Instance := Some (set_pc i (if m_Running ts then Fetching else Exited) ts)\<rparr>"
      by (simp add: WorkerThreadFunction_def)
    then show ?thesis using keep [of "if m_Running ts then Fetching else Exited" ts] by simp
  next
    case Fetching
    obtain r qs1 where pop: "TryPopTask owns_lock i (m_Queues ts) = (r, qs1)" by fastforce
    obtain r2 qs2 where steal: "TryStealTask draws (m_Queues ts) = (r2, qs2)" by fastforce
    show ?thesis
    proof (cases r)
      case (Some t)
      with pop Fetching
      have "?w' = w\<lparr>s_Instance := Some (set_pc i (Holding t) (ts\<lparr>m_Queues := qs1\<rparr>))\<rparr>"
        by (simp add: WorkerThreadFunction_def)
      then show ?thesis using keep [of "Holding t" "ts\<lparr>m_Queues := qs1\<rparr>"] by simp
    next
      case None
      note popNone = this
      show ?thesis
      proof (cases r2)
        case (Some t)
        with pop popNone steal Fetching
        have "?w' = w\<lparr>s_Instance := Some (set_pc i (Holding t) (ts\<lparr>m_Queues := qs2\<rparr>))\<rparr>"
          by (simp add: WorkerThreadFunction_def)
        then show ?thesis using keep [of "Holding t" "ts\<lparr>m_Queues := qs2\<rparr>"] by simp
      next
        case None
        with pop popNone steal Fetching
        have "?w' = w\<lparr>s_Instance := Some (set_pc i AtLoop ts)\<rparr>"
          by (simp add: WorkerThreadFunction_def)
        then show ?thesis using keep [of AtLoop ts] by simp
      qed
    qed
  next
    case (Holding t)
    then have w': "?w' = w\<lparr>invoked := (case Function t of None \<Rightarrow> invoked w
                         | Some f \<Rightarrow> invoked w @ [t]),
             s_Instance := Some (set_pc i (Accounting t) ts)\<rparr>"
      by (simp add: WorkerThreadFunction_def)
    have mono: "set (invoked w) \<subseteq> set (invoked ?w')" unfolding w' by (cases "Function t") auto
    have new: "Function t = None \<or> t \<in> set (invoked ?w')" unfolding w' by (cases "Function t") auto
    show ?thesis
    proof (rule ran_invI)
      fix x assume "x \<in> set (finished ?w')"
      then have "x \<in> set (finished w)" unfolding w' by simp
      from old(1) [OF this] mono show "Function x = None \<or> x \<in> set (invoked ?w')" by blast
    next
      fix x assume "x \<in> set (accounting_tasks ?w')"
      then have "x \<in> ?acc (set_pc i (Accounting t) ts)" unfolding w' by (simp add: accounting_tasks_def)
      with accounting_set_pc [of i "Accounting t" ts] have "x = t \<or> x \<in> ?acc ts" by auto
      then show "Function x = None \<or> x \<in> set (invoked ?w')"
      proof
        assume "x = t" with new show ?thesis by simp
      next
        assume "x \<in> ?acc ts"
        then have "x \<in> set (accounting_tasks w)" unfolding acc .
        from old(2) [OF this] mono show ?thesis by blast
      qed
    qed
  next
    case (Accounting t)
    then have w': "?w' = w\<lparr>counters := Decrement (Handle t) (counters w),
             finished := finished w @ [t],
             s_Instance := Some (set_pc i AtLoop (ts\<lparr>m_ActiveTasks := m_ActiveTasks ts - 1\<rparr>))\<rparr>"
      by (simp add: WorkerThreadFunction_def)
    from accounting_set_pc [of i AtLoop "ts\<lparr>m_ActiveTasks := m_ActiveTasks ts - 1\<rparr>"]
    have sub: "?acc (set_pc i AtLoop (ts\<lparr>m_ActiveTasks := m_ActiveTasks ts - 1\<rparr>)) \<subseteq> ?acc ts"
      by simp
    from i Accounting have "t \<in> ?acc ts" by (rule accounting_task_mem)
    then have t: "t \<in> set (accounting_tasks w)" unfolding acc .
    have inv': "invoked ?w' = invoked w" unfolding w' by simp
    show ?thesis
    proof (rule ran_invI)
      fix x assume "x \<in> set (finished ?w')"
      then have "x \<in> set (finished w) \<or> x = t" unfolding w' by auto
      then have "Function x = None \<or> x \<in> set (invoked w)"
      proof
        assume "x \<in> set (finished w)" then show ?thesis by (rule old(1))
      next
        assume "x = t" with old(2) [OF t] show ?thesis by simp
      qed
      then show "Function x = None \<or> x \<in> set (invoked ?w')" unfolding inv' .
    next
      fix x assume "x \<in> set (accounting_tasks ?w')"
      then have "x \<in> ?acc (set_pc i AtLoop (ts\<lparr>m_ActiveTasks := m_ActiveTasks ts - 1\<rparr>))"
        unfolding w' by (simp add: accounting_tasks_def)
      with sub have "x \<in> set (accounting_tasks w)" unfolding acc by blast
      from old(2) [OF this] show "Function x = None \<or> x \<in> set (invoked ?w')" unfolding inv' .
    qed
  next
    case Exited
    then have "?w' = w" by (simp add: WorkerThreadFunction_def)
    with inv show ?thesis by simp
  qed
qed

lemma ran_inv_same_logs:
  assumes "ran_inv w" and "finished w' = finished w" and "invoked w' = invoked w"
    and "set (accounting_tasks w') \<subseteq> set (accounting_tasks w)"
  shows "ran_inv w'"
proof (rule ran_invI)
  fix t assume "t \<in> set (finished w')"
  with assms(2) have "t \<in> set (finished w)" by simp
  from ran_invD(1) [OF assms(1) this] show "Function t = None \<or> t \<in> set (invoked w')"
    unfolding assms(3) .
next
  fix t assume "t \<in> set (accounting_tasks w')"
  with assms(4) have "t \<in> set (accounting_tasks w)" by blast
  from ran_invD(2) [OF assms(1) this] show "Function t = None \<or> t \<in> set (invoked w')"
    unfolding assms(3) .
qed

lemma ran_inv_step:
  assumes "step e w = Some w'" and "ran_inv w"
  shows "ran_inv w'"
proof (cases e)
  case (EvInitialize numThreads hw)
  have nil: "concat (map accounting_task (replicate k (AtLoop :: 'a worker_pc))) = []" for k
    by (induction k) simp_all
  show ?thesis
  proof (cases "s_Instance w")
    case None
    with EvInitialize assms(1)
    have w': "w' = w\<lparr>s_Instance := Some (InitializeInternal numThreads hw)\<rparr>"
      by (simp add: Initialize_def)
    show ?thesis using assms(2)
      by (rule ran_inv_same_logs)
         (simp_all add: w' accounting_tasks_def InitializeInternal_def Let_def nil)
  next
    case (Some ts)
    with EvInitialize assms show ?thesis by (simp add: Initialize_def)
  qed
next
  case (EvSchedule func priority targetQueue)
  show ?thesis
  proof (cases "s_Instance w")
    case None
    with EvSchedule assms(1) have w': "w' = w\<lparr>counters := counters w @ [0]\<rparr>"
      by (simp add: Schedule_uninitialized)
    show ?thesis using assms(2)
      by (rule ran_inv_same_logs) (simp_all add: w' accounting_tasks_def)
  next
    case (Some ts)
    with EvSchedule assms(1) have tq: "targetQueue < length (m_Queues ts)"
      and w': "w' = snd (Schedule func priority targetQueue w)"
      by (auto split: if_splits)
    show ?thesis using assms(2)
      by (rule ran_inv_same_logs)
         (simp_all add: w' Schedule_initialized [OF Some tq] accounting_tasks_def Some)
  qed
next
  case (EvWorker i owns_lock draws)
  with assms(1) obtain ts where ts: "s_Instance w = Some ts" "i < length (m_Workers ts)"
    "w' = WorkerThreadFunction i owns_lock draws ts w"
    by (auto split: option.splits if_splits)
  from ran_inv_worker [OF ts(1,2) assms(2)] ts(3) show ?thesis by simp
next
  case EvShutdownSignal
  show ?thesis
  proof (cases "s_Instance w")
    case None
    with EvShutdownSignal assms show ?thesis by simp
  next
    case (Some ts)
    with EvShutdownSignal assms(1)
    have w': "w' = w\<lparr>s_Instance := Some (ShutdownInternal_signal ts)\<rparr>" by simp
    show ?thesis using assms(2)
      by (rule ran_inv_same_logs)
         (simp_all add: w' accounting_tasks_def Some ShutdownInternal_signal_def)
  qed
next
  case EvShutdownRelease
  with assms(1) have w': "w' = w\<lparr>s_Instance := None\<rparr>"
    by (auto simp: Shutdown_delete_def split: option.splits if_splits)
  show ?thesis using assms(2)
    by (rule ran_inv_same_logs) (simp_all add: w' accounting_tasks_def)
qed

lemma ran_inv_run: "run evs w = Some w' \<Longrightarrow> ran_inv w \<Longrightarrow> ran_inv w'"
proof (induction evs arbitrary: w)
  case Nil
  then show ?case by simp
next
  case (Cons e evs)
  from Cons.prems(1) obtain wm where s: "step e w = Some wm" and r: "run evs wm = Some w'"
    by (auto split: option.splits)
  from s Cons.prems(2) have "ran_inv wm" by (rule ran_inv_step)
  with r show ?case by (rule Cons.IH)
qed

lemma ran_inv_init: "ran_inv init_world"
  by (simp add: ran_inv_def init_world_def accounting_tasks_def)

lemma finished_not_pending:
  assumes "handle_inv w" and "t \<in> set (finished w)"
  shows "t \<notin> set (queued_tasks w) \<and> t \<notin> set (held_tasks w)"
proof -
  have False if "t \<in># pending w"
    using pending_not_finished [OF assms(1) that assms(2)] by simp
  then show ?thesis by (auto simp: pending_def)
qed

text \<open>
  C4. A task is submitted to an initialised scheduler (reached from the initial state)
  and the system runs on by any sequence of steps. Every counter in the store stays at
  least 0; the counter of the returned handle is 1 after the submission, stays 0 or 1,
  and is 0 exactly when the submitted task, the only one associated with the handle, is
  among the finished tasks. When the counter is 0 the task is in no queue and in no
  worker's hands, and its callable, if it has one, has been invoked; for a task with a
  callable the counter is 0 exactly when the callable has been invoked and the worker
  has let go of the task.
\<close>

theorem handle_counter_zero_iff_task_ran:
  assumes "run evsa init_world = Some wa"
    and "s_Instance wa = Some ts" and "targetQueue < length (m_Queues ts)"
    and "Schedule func priority targetQueue wa = (handle, wb)"
    and "run evs wb = Some w"
  shows "(\<forall>b<length (counters w). 0 \<le> sint (counters w ! b))
       \<and> (\<exists>a. m_Counter handle = Some a \<and> a < length (counters w)
              \<and> counters wb ! a = 1
              \<and> (counters w ! a = 0 \<or> counters w ! a = 1)
              \<and> (counters w ! a = 0 \<longleftrightarrow>
                    \<lparr>Function = func, Priority = priority, Handle = handle\<rparr> \<in> set (finished w))
              \<and> (counters w ! a = 0 \<longrightarrow>
                    \<lparr>Function = func, Priority = priority, Handle = handle\<rparr>
                       \<notin> set (queued_tasks w)
                    \<and> \<lparr>Function = func, Priority = priority, Handle = handle\<rparr>
                       \<notin> set (held_tasks w)
                    \<and> (func = None
                        \<or> \<lparr>Function = func, Priority = priority, Handle = handle\<rparr>
                             \<in> set (invoked w)))
              \<and> (func \<noteq> None \<longrightarrow>
                    (counters w ! a = 0 \<longleftrightarrow>
                       \<lparr>Function = func, Priority = priority, Handle = handle\<rparr>
                          \<in> set (invoked w)
                       \<and> \<lparr>Function = func, Priority = priority, Handle = handle\<rparr>
                          \<notin> set (held_tasks w))))"
proof -
  let ?t = "\<lparr>Function = func, Priority = priority, Handle = handle\<rparr>"
  let ?a = "length (counters wa)"
  from reachable_inv [OF assms(1)] have inva: "len_ok wa" "handle_inv wa" by simp_all
  from assms(2,3,4) have s: "step (EvSchedule func priority targetQueue) wa = Some wb" by simp
  from handle_inv_step [OF s inva] have invb: "len_ok wb" "handle_inv wb" by simp_all
  from assms(1) ran_inv_init have "ran_inv wa" by (rule ran_inv_run)
  with s have "ran_inv wb" by (rule ran_inv_step)
  with assms(5) have ran: "ran_inv w" by (rule ran_inv_run)
  from Schedule_submits [OF assms(2,3) inva(1), of func priority] assms(4)
  have sub: "submits ?t wa wb" by simp
  then have p: "pending wb = pending wa + {#?t#}" by (simp add: submits_def pending_def)
  from sub have c: "counters wb = counters wa @ [1]"
    and h: "m_Counter handle = Some ?a"
    by (simp_all add: submits_def)
  have "x = ?t" if "x \<in># pending wb" "Handle x = Handle ?t" for x
  proof (rule ccontr)
    assume "x \<noteq> ?t"
    with that(1) have "x \<in># pending wa" unfolding p by simp
    with inva(2) obtain b where "m_Counter (Handle x) = Some b" "b < length (counters wa)"
      unfolding handle_inv_def by blast
    with that(2) h show False by simp
  qed
  with h have "tracked ?t wb" unfolding tracked_def c by simp
  with assms(5) invb have fin: "handle_inv w" "tracked ?t w" using tracked_run by blast+
  from fin(2) h have a: "?a < length (counters w)"
    and zero_fin: "counters w ! ?a = 0 \<Longrightarrow> ?t \<in> set (finished w)"
    unfolding tracked_def by auto
  from fin(1) have bits: "\<forall>b<length (counters w). counters w ! b = 0 \<or> counters w ! b = 1"
    unfolding handle_inv_def by blast
  have nonneg: "\<forall>b<length (counters w). 0 \<le> sint (counters w ! b)"
  proof (intro allI impI)
    fix b assume "b < length (counters w)"
    with bits have "counters w ! b = 0 \<or> counters w ! b = 1" by blast
    then show "0 \<le> sint (counters w ! b)" by auto
  qed
  have fin_zero: "counters w ! ?a = 0" if "?t \<in> set (finished w)"
    using fin(1) that h unfolding handle_inv_def by force
  have iff: "counters w ! ?a = 0 \<longleftrightarrow> ?t \<in> set (finished w)"
    using zero_fin fin_zero by blast
  have gone: "?t \<notin> set (queued_tasks w) \<and> ?t \<notin> set (held_tasks w)
      \<and> (func = None \<or> ?t \<in> set (invoked w))" if "counters w ! ?a = 0"
  proof -
    from that have f: "?t \<in> set (finished w)" by (rule zero_fin)
    from finished_not_pending [OF fin(1) f] ran_invD(1) [OF ran f] show ?thesis by simp
  qed
  have conv: "counters w ! ?a = 0" if "?t \<in> set (invoked w)" "?t \<notin> set (held_tasks w)"
  proof -
    from fin(1) have "set (invoked w) \<subseteq> set (held_tasks w) \<union> set (finished w)"
      unfolding handle_inv_def by blast
    with that have "?t \<in> set (finished w)" by blast
    then show ?thesis by (rule fin_zero)
  qed
  have ran_iff: "func \<noteq> None \<longrightarrow>
      (counters w ! ?a = 0 \<longleftrightarrow> ?t \<in> set (invoked w) \<and> ?t \<notin> set (held_tasks w))"
    using gone conv by blast
  have one: "counters wb ! ?a = 1" unfolding c by simp
  from bits a have bit: "counters w ! ?a = 0 \<or> counters w ! ?a = 1" by blast
  have "m_Counter handle = Some ?a \<and> ?a < length (counters w)
              \<and> counters wb ! ?a = 1
              \<and> (counters w ! ?a = 0 \<or> counters w ! ?a = 1)
              \<and> (counters w ! ?a = 0 \<longleftrightarrow> ?t \<in> set (finished w))
              \<and> (counters w ! ?a = 0 \<longrightarrow>
                    ?t \<notin> set (queued_tasks w) \<and> ?t \<notin> set (held_tasks w)
                    \<and> (func = None \<or> ?t \<in> set (invoked w)))
              \<and> (func \<noteq> None \<longrightarrow>
                    (counters w ! ?a = 0 \<longleftrightarrow>
                       ?t \<in> set (invoked w) \<and> ?t \<notin> set (held_tasks w)))"
    using h a one bit iff gone ran_iff by blast
  then have "\<exists>a. m_Counter handle = Some a \<and> a < length (counters w)
              \<and> counters wb ! a = 1
              \<and> (counters w ! a = 0 \<or> counters w ! a = 1)
              \<and> (counters w ! a = 0 \<longleftrightarrow> ?t \<in> set (finished w))
              \<and> (counters w ! a = 0 \<longrightarrow>
                    ?t \<notin> set (queued_tasks w) \<and> ?t \<notin> set (held_tasks w)
                    \<and> (func = None \<or> ?t \<in> set (invoked w)))
              \<and> (func \<noteq> None \<longrightarrow>
                    (counters w ! a = 0 \<longleftrightarrow>
                       ?t \<in> set (invoked w) \<and> ?t \<notin> set (held_tasks w)))" ..
  with nonneg show ?thesis by (rule conjI)
qed

theorem handle_counter_zero_iff_task_ran_witness:
  "counters (the (run [EvInitialize 1 4, EvSchedule (Some (7 :: nat)) Normal 0] init_world)) = [1]
   \<and> counters (the (run [EvInitialize 1 4, EvSchedule (Some (7 :: nat)) Normal 0,
        EvWorker 0 True [], EvWorker 0 True [], EvWorker 0 True [], EvWorker 0 True []]
        init_world)) = [0]
   \<and> invoked (the (run [EvInitialize 1 4, EvSchedule (Some (7 :: nat)) Normal 0,
        EvWorker 0 True [], EvWorker 0 True [], EvWorker 0 True [], EvWorker 0 True []]
        init_world))
     = [\<lparr>Function = Some 7, Priority = Normal, Handle = \<lparr>m_Counter = Some 0\<rparr>\<rparr>]
   \<and> held_tasks (the (run [EvInitialize 1 4, EvSchedule (Some (7 :: nat)) Normal 0,
        EvWorker 0 True [], EvWorker 0 True [], EvWorker 0 True [], EvWorker 0 True []]
        init_world)) = []"
  using handle_counter_zero_iff_task_ran [where
      evsa = "[EvInitialize 1 4]"
      and wa = "the (run [EvInitialize 1 4] (init_world :: nat world))"
      and ts = "the (s_Instance (the (run [EvInitialize 1 4] (init_world :: nat world))))"
      and targetQueue = 0 and func = "Some 7" and priority = Normal
      and handle = "\<lparr>m_Counter = Some 0\<rparr>"
      and wb = "the (run [EvInitialize 1 4, EvSchedule (Some (7 :: nat)) Normal 0] init_world)"
      and evs = "[EvWorker 0 True [], EvWorker 0 True [], EvWorker 0 True [], EvWorker 0 True []]"
      and w = "the (run [EvInitialize 1 4, EvSchedule (Some (7 :: nat)) Normal 0,
        EvWorker 0 True [], EvWorker 0 True [], EvWorker 0 True [], EvWorker 0 True []]
        init_world)"]
  by (simp add: eval_defs held_tasks_def ts_held_def)

section \<open>One worker and its queue\<close>







lemma length_mk_tasks [simp]: "length (mk_tasks base ps) = length ps"
  by (induction ps arbitrary: base) auto

lemma length_insert_task [simp]: "length (insert_task q t) = Suc (length q)"
  by (induction q) auto

lemma length_foldl_insert_task [simp]:
  "length (foldl insert_task q ts) = length q + length ts"
  by (induction ts arbitrary: q) auto










section \<open>Shutdown\<close>























end
